theory Spec2Isabelle
  imports Complex_Main "HOL-Library.AList" "HOL-Library.Multiset" "HOL-Library.Char_ord" "HOL-Library.List_Lexorder"
begin

section \<open>Python values shared by the four primitives\<close>

text \<open>
  The module \<^verbatim>\<open>chapter-19/mcp_optimization_strategies.py\<close> is embedded function by
  function. A Python \<^verbatim>\<open>dict\<close> keeps its keys in insertion order, so it is an association
  list whose keys are distinct: \<open>AList.update\<close> is the assignment \<^verbatim>\<open>d[k] = v\<close> (replace
  in place, or append a new key), \<open>AList.delete\<close> is \<^verbatim>\<open>del d[k]\<close>, \<open>map_of\<close> is the
  lookup. An exception is a value: its class name and its message.
\<close>

datatype py_exception = PyExc string string

definition keys :: "('k \<times> 'v) list \<Rightarrow> 'k set" where
  "keys d = fst ` set d"

section \<open>Part 1: the context-aware cache\<close>

text \<open>
  \<^verbatim>\<open>_make_key\<close> calls \<^verbatim>\<open>json.dumps(context, sort_keys=True)\<close> of the standard library. The
  context is a \<^verbatim>\<open>Dict[str, Any]\<close> of JSON-like values; \<open>dumps\<close> is the library's encoder
  on them with its default separators and ASCII escapes: the items of every dictionary are
  written in the order of their keys (Python compares strings by code point, as the
  lexicographic order on \<open>string\<close> does). A \<open>char\<close> is a code point below 256.

  The encoder writes a finite float with \<^verbatim>\<open>float.__repr__\<close> and the other three as
  \<^verbatim>\<open>NaN\<close>, \<^verbatim>\<open>Infinity\<close> and \<^verbatim>\<open>-Infinity\<close>. The shortest decimal that \<^verbatim>\<open>float.__repr__\<close>
  finds is not computed here: a finite float is held as its numeric value together with
  that text, so \<^verbatim>\<open>1.0\<close> is \<open>Finite 1 ''1.0''\<close>, and the two zeros, equal as numbers, are
  \<open>Finite 0 ''0.0''\<close> and \<open>Finite 0 ''-0.0''\<close>.
\<close>

datatype py_float = Finite rat string | Infinity | MinusInfinity | NaN

fun floatstr :: "py_float \<Rightarrow> string" where
  "floatstr NaN = ''NaN''"
| "floatstr Infinity = ''Infinity''"
| "floatstr MinusInfinity = ''-Infinity''"
| "floatstr (Finite v repr) = repr"

datatype json =
    JNull
  | JBool bool
  | JInt int
  | JFloat py_float
  | JStr string
  | JList "json list"
  | JDict "(string \<times> json) list"

definition hex_digit :: "nat \<Rightarrow> char" where
  "hex_digit n = ''0123456789abcdef'' ! (n mod 16)"

definition escape_char :: "char \<Rightarrow> string" where
  "escape_char c =
     (let n = (of_char c :: nat) in
      if c = CHR 0x22 then [CHR 0x5C, CHR 0x22]
      else if c = CHR 0x5C then [CHR 0x5C, CHR 0x5C]
      else if c = CHR 0x0A then [CHR 0x5C, CHR ''n'']
      else if c = CHR 0x0D then [CHR 0x5C, CHR ''r'']
      else if c = CHR 0x09 then [CHR 0x5C, CHR ''t'']
      else if c = CHR 0x08 then [CHR 0x5C, CHR ''b'']
      else if c = CHR 0x0C then [CHR 0x5C, CHR ''f'']
      else if n < 32 \<or> 126 < n
        then [CHR 0x5C, CHR ''u'', CHR ''0'', CHR ''0'', hex_digit (n div 16), hex_digit n]
      else [c])"

definition encode_str :: "string \<Rightarrow> string" where
  "encode_str s = [CHR 0x22] @ concat (map escape_char s) @ [CHR 0x22]"

fun str_nat :: "nat \<Rightarrow> string" where
  "str_nat n = (if n < 10 then [hex_digit n] else str_nat (n div 10) @ [hex_digit (n mod 10)])"

declare str_nat.simps [simp del]

definition str_int :: "int \<Rightarrow> string" where
  "str_int i = (if i < 0 then CHR ''-'' # str_nat (nat (- i)) else str_nat (nat i))"

fun join :: "string \<Rightarrow> string list \<Rightarrow> string" where
  "join sep [] = []"
| "join sep [x] = x"
| "join sep (x # y # ys) = x @ sep @ join sep (y # ys)"

lemma json_size_member:
  "(k, v) \<in> set kvs \<Longrightarrow> size v < Suc (size_list (size_prod (\<lambda>_. 0) size) kvs)"
  by (induction kvs) auto

function dumps :: "json \<Rightarrow> string" where
  "dumps JNull = ''null''"
| "dumps (JBool b) = (if b then ''true'' else ''false'')"
| "dumps (JInt i) = str_int i"
| "dumps (JFloat x) = floatstr x"
| "dumps (JStr s) = encode_str s"
| "dumps (JList xs) = ''['' @ join '', '' (map dumps xs) @ '']''"
| "dumps (JDict kvs) =
     ''{'' @ join '', '' (map (\<lambda>(k, v). encode_str k @ '': '' @ dumps v) (sort_key fst kvs)) @ ''}''"
  by pat_completeness auto
termination
proof (relation "measure size")
  show "wf (measure size)" by simp
next
  fix xs :: "json list" and x assume "x \<in> set xs"
  then show "(x, JList xs) \<in> measure size"
    by (induction xs) auto
next
  fix kvs :: "(string \<times> json) list" and x k v
  assume "x \<in> set (sort_key fst kvs)" "(k, v) = x"
  then have "(k, v) \<in> set kvs" by simp
  then show "(v, JDict kvs) \<in> measure size"
    using json_size_member [of k v kvs] by simp
qed

definition make_key :: "string \<Rightarrow> (string \<times> json) list \<Rightarrow> string" where
  "make_key query ctx = query @ ''::'' @ dumps (JDict ctx)"


text \<open>
  Two JSON values are the same value when they are the same scalar, of the same type
  (for a float: the same float, so the two zeros differ), lists with the same elements in
  the same order, or dictionaries that map the same keys to the same values, in whatever
  order the keys were inserted.
\<close>

inductive same_json :: "json \<Rightarrow> json \<Rightarrow> bool" where
  "same_json JNull JNull"
| "same_json (JBool b) (JBool b)"
| "same_json (JInt i) (JInt i)"
| "same_json (JStr s) (JStr s)"
| "list_all2 same_json xs ys \<Longrightarrow> same_json (JList xs) (JList ys)"
| "distinct (map fst xs) \<Longrightarrow> distinct (map fst ys)
   \<Longrightarrow> (\<forall>k. rel_option same_json (map_of xs k) (map_of ys k))
   \<Longrightarrow> same_json (JDict xs) (JDict ys)"
| "same_json (JFloat x) (JFloat x)"

text \<open>
  Python's \<^verbatim>\<open>==\<close> on these values is coarser. A \<^verbatim>\<open>bool\<close> is an \<^verbatim>\<open>int\<close> (\<^verbatim>\<open>True == 1\<close>), and
  numbers of the three types are compared by their numeric value, exactly
  (\<^verbatim>\<open>1 == 1.0\<close>, \<^verbatim>\<open>0.0 == -0.0\<close>); an infinity is equal to itself only and \<^verbatim>\<open>NaN\<close> to no
  number. \<open>number_of\<close> gives the numeric value of a finite number. Lists are equal when
  their elements are, dictionaries when they have the same keys with equal values.
\<close>

fun number_of :: "json \<Rightarrow> rat option" where
  "number_of (JBool b) = Some (if b then 1 else 0)"
| "number_of (JInt i) = Some (of_int i)"
| "number_of (JFloat (Finite v repr)) = Some v"
| "number_of other = None"

inductive py_equal :: "json \<Rightarrow> json \<Rightarrow> bool" where
  "py_equal JNull JNull"
| "number_of a = Some v \<Longrightarrow> number_of b = Some v \<Longrightarrow> py_equal a b"
| "py_equal (JFloat Infinity) (JFloat Infinity)"
| "py_equal (JFloat MinusInfinity) (JFloat MinusInfinity)"
| "py_equal (JStr s) (JStr s)"
| "list_all2 py_equal xs ys \<Longrightarrow> py_equal (JList xs) (JList ys)"
| "distinct (map fst xs) \<Longrightarrow> distinct (map fst ys)
   \<Longrightarrow> (\<forall>k. rel_option py_equal (map_of xs k) (map_of ys k))
   \<Longrightarrow> py_equal (JDict xs) (JDict ys)"

text \<open>
  The cache object: \<^verbatim>\<open>_store\<close> is a dict, \<^verbatim>\<open>_access_order\<close> a list of keys with the least
  recently used first. A method returns its result together with the object as it has
  left it; \<^verbatim>\<open>list.pop(0)\<close> on an empty list, \<^verbatim>\<open>del\<close> of a missing key and
  \<^verbatim>\<open>list.remove\<close> of a missing element raise.
\<close>

record 'v cache =
  max_size :: int
  store :: "(string \<times> 'v) list"
  access_order :: "string list"
  hits :: int
  misses :: int

definition new_cache :: "int \<Rightarrow> 'v cache" where
  "new_cache n = \<lparr>max_size = n, store = [], access_order = [], hits = 0, misses = 0\<rparr>"

definition index_error :: py_exception where
  "index_error = PyExc ''IndexError'' ''pop from empty list''"

definition key_error :: "string \<Rightarrow> py_exception" where
  "key_error k = PyExc ''KeyError'' k"

definition value_error :: py_exception where
  "value_error = PyExc ''ValueError'' ''list.remove(x): x not in list''"

definition get_key :: "'v cache \<Rightarrow> string \<Rightarrow> (py_exception + 'v option) \<times> 'v cache" where
  "get_key c key =
     (if key \<in> keys (store c) then
        let c1 = c\<lparr>hits := hits c + 1\<rparr> in
        if key \<in> set (access_order c1) then
          let c2 = c1\<lparr>access_order := remove1 key (access_order c1)\<rparr>;
              c3 = c2\<lparr>access_order := access_order c2 @ [key]\<rparr>
          in (Inr (map_of (store c3) key), c3)
        else (Inl value_error, c1)
      else (Inr None, c\<lparr>misses := misses c + 1\<rparr>))"

definition get :: "'v cache \<Rightarrow> string \<Rightarrow> (string \<times> json) list \<Rightarrow> (py_exception + 'v option) \<times> 'v cache" where
  "get c query ctx = get_key c (make_key query ctx)"

definition put_key :: "'v cache \<Rightarrow> string \<Rightarrow> 'v \<Rightarrow> py_exception option \<times> 'v cache" where
  "put_key c key v =
     (let evict =
        (if max_size c \<le> int (length (store c)) \<and> key \<notin> keys (store c) then
           (case access_order c of
              [] \<Rightarrow> (Some index_error, c)
            | oldest # rest \<Rightarrow>
                let c1 = c\<lparr>access_order := rest\<rparr> in
                if oldest \<in> keys (store c1)
                then (None, c1\<lparr>store := AList.delete oldest (store c1)\<rparr>)
                else (Some (key_error oldest), c1))
         else (None, c))
      in case evict of
           (Some e, c1) \<Rightarrow> (Some e, c1)
         | (None, c1) \<Rightarrow>
             let c2 = c1\<lparr>store := AList.update key v (store c1)\<rparr> in
             if key \<notin> set (access_order c2)
             then (None, c2\<lparr>access_order := access_order c2 @ [key]\<rparr>)
             else (None, c2))"

definition put :: "'v cache \<Rightarrow> string \<Rightarrow> (string \<times> json) list \<Rightarrow> 'v \<Rightarrow> py_exception option \<times> 'v cache" where
  "put c query ctx v = put_key c (make_key query ctx) v"

text \<open>What every cache reached from \<open>new_cache\<close> by \<open>get\<close> and \<open>put\<close> satisfies:
  the access-order list holds exactly the keys of the store, each once.\<close>

definition cache_inv :: "'v cache \<Rightarrow> bool" where
  "cache_inv c \<longleftrightarrow> distinct (map fst (store c)) \<and> distinct (access_order c)
                  \<and> set (access_order c) = keys (store c)"

text \<open>Example contexts and a cache of capacity two holding two entries.\<close>

definition ctx_ab :: "(string \<times> json) list" where
  "ctx_ab = [(''a'', JInt 1), (''b'', JInt 2)]"

definition ctx_ba :: "(string \<times> json) list" where
  "ctx_ba = [(''b'', JInt 2), (''a'', JInt 1)]"

definition ctx_nested :: "(string \<times> json) list" where
  "ctx_nested = [(''user'', JStr ''alice''), (''scope'', JDict ctx_ab), (''tags'', JList [JNull, JBool True])]"

definition ctx_nested_swapped :: "(string \<times> json) list" where
  "ctx_nested_swapped = [(''tags'', JList [JNull, JBool True]), (''scope'', JDict ctx_ba), (''user'', JStr ''alice'')]"

definition ctx_int :: "(string \<times> json) list" where
  "ctx_int = [(''a'', JInt 1)]"

definition ctx_bool :: "(string \<times> json) list" where
  "ctx_bool = [(''a'', JBool True)]"

definition ctx_float :: "(string \<times> json) list" where
  "ctx_float = [(''a'', JFloat (Finite 1 ''1.0''))]"

definition ctx_zero :: "(string \<times> json) list" where
  "ctx_zero = [(''a'', JFloat (Finite 0 ''0.0''))]"

definition ctx_minus_zero :: "(string \<times> json) list" where
  "ctx_minus_zero = [(''a'', JFloat (Finite 0 ''-0.0''))]"

definition cache_k1k2 :: "string cache" where
  "cache_k1k2 = snd (put (snd (put (new_cache 2) ''q1'' [] ''v1'')) ''q2'' [] ''v2'')"

section \<open>Part 2: the capability-aware load balancer\<close>

record server_info =
  capabilities :: "string set"
  current_load :: int
  total_handled :: int

record load_balancer =
  servers :: "(string \<times> server_info) list"

definition new_load_balancer :: load_balancer where
  "new_load_balancer = \<lparr>servers = []\<rparr>"

definition register_server :: "load_balancer \<Rightarrow> string \<Rightarrow> string list \<Rightarrow> load_balancer" where
  "register_server lb name caps =
     lb\<lparr>servers := AList.update name
        \<lparr>capabilities = set caps, current_load = 0, total_handled = 0\<rparr> (servers lb)\<rparr>"

text \<open>
  \<^verbatim>\<open>candidates\<close> collects, in iteration order, the name and load of every server whose
  capability set contains the required ones; \<^verbatim>\<open>candidates.sort(key=lambda c: c[1])\<close> is a
  stable sort on the load, as \<open>sort_key\<close> is.
\<close>

definition candidates :: "load_balancer \<Rightarrow> string list \<Rightarrow> (string \<times> int) list" where
  "candidates lb required_caps =
     map (\<lambda>(name, info). (name, current_load info))
       (filter (\<lambda>(name, info). set required_caps \<subseteq> capabilities info) (servers lb))"

definition bump_load :: "server_info \<Rightarrow> server_info" where
  "bump_load info = info\<lparr>current_load := current_load info + 1\<rparr>"

definition bump_handled :: "server_info \<Rightarrow> server_info" where
  "bump_handled info = info\<lparr>total_handled := total_handled info + 1\<rparr>"

definition select_server :: "load_balancer \<Rightarrow> string list \<Rightarrow> string option \<times> load_balancer" where
  "select_server lb required_caps =
     (let cs = candidates lb required_caps in
      if cs = [] then (None, lb)
      else
        let chosen = fst (hd (sort_key snd cs));
            lb1 = lb\<lparr>servers := AList.map_entry chosen bump_load (servers lb)\<rparr>;
            lb2 = lb1\<lparr>servers := AList.map_entry chosen bump_handled (servers lb1)\<rparr>
        in (Some chosen, lb2))"

definition release :: "load_balancer \<Rightarrow> string \<Rightarrow> load_balancer" where
  "release lb server_name =
     (if server_name \<in> keys (servers lb)
      then lb\<lparr>servers := AList.map_entry server_name
             (\<lambda>info. info\<lparr>current_load := max 0 (current_load info - 1)\<rparr>) (servers lb)\<rparr>
      else lb)"

definition load_distribution :: "load_balancer \<Rightarrow> (string \<times> int) list" where
  "load_distribution lb = map (\<lambda>(n, s). (n, total_handled s)) (servers lb)"

text \<open>A caller's use of one balancer: any sequence of the four operations.\<close>

datatype lb_op =
    Register string "string list"
  | Select "string list"
  | Release string
  | LoadDistribution

fun apply_op :: "load_balancer \<Rightarrow> lb_op \<Rightarrow> load_balancer" where
  "apply_op lb (Register name caps) = register_server lb name caps"
| "apply_op lb (Select required_caps) = snd (select_server lb required_caps)"
| "apply_op lb (Release name) = release lb name"
| "apply_op lb LoadDistribution = lb"

definition run_ops :: "lb_op list \<Rightarrow> load_balancer" where
  "run_ops ops = foldl apply_op new_load_balancer ops"

definition loads_nonneg :: "load_balancer \<Rightarrow> bool" where
  "loads_nonneg lb = list_all (\<lambda>(n, info). 0 \<le> current_load info) (servers lb)"

definition qualifies :: "string list \<Rightarrow> server_info \<Rightarrow> bool" where
  "qualifies required_caps info = (set required_caps \<subseteq> capabilities info)"

text \<open>Example balancers: one provider that only searches; a busy and an idle provider;
  a provider released more often than it was selected.\<close>

definition search_only :: load_balancer where
  "search_only = \<lparr>servers = [(''s1'', \<lparr>capabilities = {''search''}, current_load = 0, total_handled = 0\<rparr>)]\<rparr>"

definition busy_idle :: load_balancer where
  "busy_idle = \<lparr>servers =
     [(''busy'', \<lparr>capabilities = {''search''}, current_load = 2, total_handled = 2\<rparr>),
      (''idle'', \<lparr>capabilities = {''search'', ''classify''}, current_load = 0, total_handled = 0\<rparr>)]\<rparr>"

definition over_released :: load_balancer where
  "over_released = run_ops [Register ''nlp'' [''search''], Select [''search''], LoadDistribution,
                            Release ''nlp'', Release ''nlp'', Release ''ghost'']"

section \<open>Part 3: the request orchestrator and the performance monitor\<close>

text \<open>
  \<^verbatim>\<open>execute_dag\<close> takes the DAG as a dict from task name to the list of its dependencies,
  and a callback that is awaited once per task: it gives a result or raises, which is its
  value here. One pass of the \<^verbatim>\<open>while remaining\<close> loop is one batch: the ready tasks are
  collected in the order of \<^verbatim>\<open>remaining\<close>, \<^verbatim>\<open>total_batches\<close> is incremented, the callback
  is invoked on each and \<^verbatim>\<open>asyncio.gather\<close> runs them concurrently; an exception of the
  callback leaves the method, otherwise each result is recorded in \<^verbatim>\<open>completed\<close> and its task deleted from
  \<^verbatim>\<open>remaining\<close> (a key of \<^verbatim>\<open>remaining\<close> in this pass, so the deletion finds it). The loop carries a trace of these events, which the source does not
  keep: \<open>Invoked t\<close> when the callback is called on \<open>t\<close>, \<open>Recorded t\<close> when
  \<^verbatim>\<open>completed[t]\<close> is assigned. The method returns the mapping or the exception, and leaves
  the two counters as they stand.

  \<^verbatim>\<open>asyncio.gather\<close> propagates the exception that is raised first in time, not the one
  of the first task of the batch. The time at which the callback ends on a task is not in
  the source: it is the parameter \<open>delay\<close> of the run. Of the tasks of a batch on which
  the callback raises, \<open>gather\<close> takes the one with the least delay (the earliest in the
  batch among those that end at the same moment, the event loop serving them in the order
  in which they were started) and raises its exception; when the callback raises on none,
  it gives the results in the order of the batch.
\<close>

type_synonym dag = "(string \<times> string list) list"

record orchestrator =
  total_requests :: int
  total_batches :: int

definition new_orchestrator :: orchestrator where
  "new_orchestrator = \<lparr>total_requests = 0, total_batches = 0\<rparr>"

definition cycle_error :: py_exception where
  "cycle_error = PyExc ''RuntimeError'' ''Cycle detected in task DAG''"

datatype event = Invoked string | Recorded string

record 'r dag_run =
  completed :: "(string \<times> 'r) list"
  remaining :: dag
  counters :: orchestrator
  trace :: "event list"

definition ready_tasks :: "(string \<times> 'r) list \<Rightarrow> dag \<Rightarrow> string list" where
  "ready_tasks done rem =
     map fst (filter (\<lambda>(t, deps). list_all (\<lambda>d. d \<in> keys done) deps) rem)"

definition gather ::
  "(string \<Rightarrow> nat) \<Rightarrow> (string \<Rightarrow> py_exception + 'r) \<Rightarrow> string list \<Rightarrow> py_exception + 'r list" where
  "gather delay f ts =
     (case sort_key delay (filter (\<lambda>t. isl (f t)) ts) of
        [] \<Rightarrow> Inr (map (\<lambda>t. projr (f t)) ts)
      | t # later \<Rightarrow> Inl (projl (f t)))"

fun record_results :: "(string \<times> 'r) list \<Rightarrow> 'r dag_run \<Rightarrow> 'r dag_run" where
  "record_results [] s = s"
| "record_results ((task, result) # rest) s =
     record_results rest
       (s\<lparr>completed := AList.update task result (completed s),
          remaining := AList.delete task (remaining s),
          counters := (counters s)\<lparr>total_requests := total_requests (counters s) + 1\<rparr>,
          trace := trace s @ [Recorded task]\<rparr>)"

definition start_batch :: "string list \<Rightarrow> 'r dag_run \<Rightarrow> 'r dag_run" where
  "start_batch ready s =
     s\<lparr>counters := (counters s)\<lparr>total_batches := total_batches (counters s) + 1\<rparr>,
       trace := trace s @ map Invoked ready\<rparr>"

lemma remaining_record_results:
  "remaining (record_results ps s) = filter (\<lambda>(t, deps). t \<notin> fst ` set ps) (remaining s)"
proof (induction ps arbitrary: s)
  case Nil
  show ?case by simp
next
  case (Cons p ps)
  obtain task result where p: "p = (task, result)" by (cases p)
  show ?case
    by (auto simp add: p Cons.IH AList.delete_eq case_prod_unfold intro!: filter_cong)
qed

lemma length_gather: "gather delay f ts = Inr rs \<Longrightarrow> length rs = length ts"
  by (auto simp: gather_def split: list.splits)

lemma set_ready_tasks: "set (ready_tasks done rem) \<subseteq> keys rem"
  by (auto simp: ready_tasks_def keys_def intro: rev_image_eqI)

lemma remaining_start_batch [simp]: "remaining (start_batch ready s) = remaining s"
  by (simp add: start_batch_def)

lemma batch_shrinks:
  assumes ne: "ready_tasks done rem \<noteq> []" and g: "gather delay f (ready_tasks done rem) = Inr rs"
    and r: "remaining s = rem"
  shows "length (remaining (record_results (zip (ready_tasks done rem) rs) (start_batch (ready_tasks done rem) s)))
         < length rem"
proof -
  let ?ready = "ready_tasks done rem"
  from length_gather [OF g] have fs: "fst ` set (zip ?ready rs) = set ?ready"
    by (metis map_fst_zip set_map)
  from ne obtain t where t: "t \<in> set ?ready" by (cases ?ready) auto
  with set_ready_tasks [of "done" rem] obtain deps where td: "(t, deps) \<in> set rem"
    by (auto simp: keys_def)
  from t have "\<not> (case (t, deps) of (t, deps) \<Rightarrow> t \<notin> set ?ready)" by simp
  with td have "length (filter (\<lambda>(t, deps). t \<notin> set ?ready) rem) < length rem"
    by (rule length_filter_less)
  then show ?thesis by (simp add: remaining_record_results fs r)
qed

text \<open>The loop ends: every batch deletes at least one task from \<^verbatim>\<open>remaining\<close>.\<close>

function execute_loop ::
  "(string \<Rightarrow> nat) \<Rightarrow> (string \<Rightarrow> py_exception + 'r) \<Rightarrow> 'r dag_run
     \<Rightarrow> (py_exception + (string \<times> 'r) list) \<times> orchestrator \<times> event list" where
  "execute_loop delay f s =
     (if remaining s = [] then (Inr (completed s), counters s, trace s)
      else
        let ready = ready_tasks (completed s) (remaining s) in
        if ready = [] then (Inl cycle_error, counters s, trace s)
        else
          let s1 = start_batch ready s in
          case gather delay f ready of
            Inl e \<Rightarrow> (Inl e, counters s1, trace s1)
          | Inr batch_results \<Rightarrow> execute_loop delay f (record_results (zip ready batch_results) s1))"
  by pat_completeness auto
termination
proof (relation "measure (\<lambda>(delay, f, s). length (remaining s))")
  show "wf (measure (\<lambda>(delay, f, s). length (remaining s)))" by simp
next
  fix delay :: "string \<Rightarrow> nat"
  fix f :: "string \<Rightarrow> py_exception + 'r" and s :: "'r dag_run" and ready s1 rs
  assume "remaining s \<noteq> []" "ready = ready_tasks (completed s) (remaining s)" "ready \<noteq> []"
    "s1 = start_batch ready s" "gather delay f ready = Inr rs"
  then show "((delay, f, record_results (zip ready rs) s1), (delay, f, s))
              \<in> measure (\<lambda>(delay, f, s). length (remaining s))"
    using batch_shrinks [of "completed s" "remaining s" delay f rs s] by simp
qed

declare execute_loop.simps [simp del]

definition execute_dag ::
  "orchestrator \<Rightarrow> dag \<Rightarrow> (string \<Rightarrow> nat) \<Rightarrow> (string \<Rightarrow> py_exception + 'r)
     \<Rightarrow> (py_exception + (string \<times> 'r) list) \<times> orchestrator \<times> event list" where
  "execute_dag orch dag delay f =
     execute_loop delay f \<lparr>completed = [], remaining = dag, counters = orch, trace = []\<rparr>"

text \<open>
  What the claims say of a DAG. A dependency chain is a list of tasks in which each task
  has the one before it among its dependencies; the depth of the DAG is the length of a
  longest chain. \<open>dep_rel\<close> holds the pairs (dependency, task); the DAG is acyclic when no
  task reaches itself along them, and closed when every dependency is a task of the DAG.
  \<open>deps_recorded_before g done es\<close> reads a trace: at every invocation of a task, all its
  dependencies have been recorded (\<open>done\<close> are those recorded before the trace starts).
\<close>

fun chain :: "dag \<Rightarrow> string list \<Rightarrow> bool" where
  "chain g [] = True"
| "chain g [t] = (t \<in> keys g)"
| "chain g (d # t # ts) =
     (d \<in> keys g \<and> (case map_of g t of None \<Rightarrow> False | Some deps \<Rightarrow> d \<in> set deps)
      \<and> chain g (t # ts))"

definition longest_chain :: "dag \<Rightarrow> nat \<Rightarrow> bool" where
  "longest_chain g n \<longleftrightarrow>
     (\<exists>ts. chain g ts \<and> length ts = n) \<and> (\<forall>ts. chain g ts \<longrightarrow> length ts \<le> n)"

definition dep_rel :: "dag \<Rightarrow> (string \<times> string) set" where
  "dep_rel g = set (concat (map (\<lambda>(t, deps). map (\<lambda>d. (d, t)) deps) g))"

definition dag_closed :: "dag \<Rightarrow> bool" where
  "dag_closed g = list_all (\<lambda>(t, deps). list_all (\<lambda>d. d \<in> keys g) deps) g"

definition dag_acyclic :: "dag \<Rightarrow> bool" where
  "dag_acyclic g = acyclic (dep_rel g)"

fun deps_recorded_before :: "dag \<Rightarrow> string set \<Rightarrow> event list \<Rightarrow> bool" where
  "deps_recorded_before g done [] = True"
| "deps_recorded_before g done (Recorded t # es) = deps_recorded_before g (insert t done) es"
| "deps_recorded_before g done (Invoked t # es) =
     ((case map_of g t of None \<Rightarrow> False | Some deps \<Rightarrow> set deps \<subseteq> done)
      \<and> deps_recorded_before g done es)"

definition succeeds_on :: "(string \<Rightarrow> py_exception + 'r) \<Rightarrow> dag \<Rightarrow> bool" where
  "succeeds_on f g = list_all (\<lambda>(t, deps). case f t of Inl e \<Rightarrow> False | Inr r \<Rightarrow> True) g"

text \<open>The state after a batch whose results are \<open>rs\<close>, and what the loop keeps true:
  the remaining tasks are distinct and none of them is completed; every dependency of a
  remaining task is completed or remaining.\<close>

definition after_batch :: "'r dag_run \<Rightarrow> 'r list \<Rightarrow> 'r dag_run" where
  "after_batch s rs =
     record_results (zip (ready_tasks (completed s) (remaining s)) rs)
       (start_batch (ready_tasks (completed s) (remaining s)) s)"

definition wf_run :: "'r dag_run \<Rightarrow> bool" where
  "wf_run s \<longleftrightarrow> distinct (map fst (remaining s)) \<and> keys (completed s) \<inter> keys (remaining s) = {}"

definition closed_run :: "'r dag_run \<Rightarrow> bool" where
  "closed_run s \<longleftrightarrow>
     (\<forall>(t, deps) \<in> set (remaining s). set deps \<subseteq> keys (completed s) \<union> keys (remaining s))"

text \<open>
  The tasks of a DAG that can run at all: those whose dependencies are tasks that can
  run. A task on a cycle, or behind a dependency that is not a key, is not among them,
  and the callback is never invoked on it.
\<close>

inductive runnable :: "dag \<Rightarrow> string \<Rightarrow> bool" for g where
  "map_of g t = Some deps \<Longrightarrow> (\<forall>d \<in> set deps. runnable g d) \<Longrightarrow> runnable g t"

definition sub_run :: "dag \<Rightarrow> 'r dag_run \<Rightarrow> bool" where
  "sub_run g s \<longleftrightarrow>
     wf_run s
     \<and> (\<forall>t deps. map_of (remaining s) t = Some deps \<longrightarrow> map_of g t = Some deps)
     \<and> keys g \<subseteq> keys (completed s) \<union> keys (remaining s)
     \<and> (\<forall>t \<in> keys (completed s). runnable g t)"

text \<open>Example DAGs, callbacks and delays.\<close>

definition demo_dag :: dag where
  "demo_dag = [(''A'', []), (''B'', []), (''C'', [''A'', ''B'']), (''D'', [''C''])]"

definition cyclic_dag :: dag where
  "cyclic_dag = [(''A'', [''B'']), (''B'', [''A''])]"

definition dangling_dag :: dag where
  "dangling_dag = [(''A'', []), (''B'', [''Z''])]"

definition two_step_dag :: dag where
  "two_step_dag = [(''A'', []), (''B'', [''A''])]"

definition self_loop_dag :: dag where
  "self_loop_dag = [(''A'', []), (''B'', [''B''])]"

definition together :: "string \<Rightarrow> nat" where
  "together t = 0"

definition slow_A :: "string \<Rightarrow> nat" where
  "slow_A t = (if t = ''A'' then 2 else 1)"

definition two_roots_dag :: dag where
  "two_roots_dag = [(''A'', []), (''B'', [])]"

definition fails_everywhere :: "string \<Rightarrow> py_exception + string" where
  "fails_everywhere t = Inl (PyExc ''ValueError'' t)"

definition echo_task :: "string \<Rightarrow> py_exception + string" where
  "echo_task t = Inr (''done '' @ t)"

definition fails_on_A :: "string \<Rightarrow> py_exception + string" where
  "fails_on_A t = (if t = ''A'' then Inl (PyExc ''ValueError'' ''boom'') else Inr (''done '' @ t))"

definition raises_cycle_error :: "string \<Rightarrow> py_exception + string" where
  "raises_cycle_error t = Inl (PyExc ''RuntimeError'' ''Cycle detected in task DAG'')"

text \<open>
  \<^verbatim>\<open>record\<close> only appends and slices, so the samples are of any type. \<open>slice_from xs i\<close> is
  Python's \<^verbatim>\<open>xs[i:]\<close>: a negative start counts from the end and is clipped at the first
  element, a start of zero keeps the whole list.
\<close>

record 'a performance_monitor =
  window :: int
  samples :: "'a list"

definition new_monitor :: "int \<Rightarrow> 'a performance_monitor" where
  "new_monitor w = \<lparr>window = w, samples = []\<rparr>"

definition slice_start :: "int \<Rightarrow> nat \<Rightarrow> nat" where
  "slice_start i n = (if i < 0 then nat (max 0 (i + int n)) else min (nat i) n)"

definition slice_from :: "'a list \<Rightarrow> int \<Rightarrow> 'a list" where
  "slice_from xs i = drop (slice_start i (length xs)) xs"

definition record_latency :: "'a performance_monitor \<Rightarrow> 'a \<Rightarrow> 'a performance_monitor" where
  "record_latency m latency =
     (let m1 = m\<lparr>samples := samples m @ [latency]\<rparr> in
      if window m1 * 2 < int (length (samples m1))
      then m1\<lparr>samples := slice_from (samples m1) (- window m1 * 2)\<rparr>
      else m1)"

definition record_all :: "int \<Rightarrow> 'a list \<Rightarrow> 'a performance_monitor" where
  "record_all w ls = foldl record_latency (new_monitor w) ls"

section \<open>Facts about association lists\<close>

lemma keys_map_entry: "keys (AList.map_entry k f d) = keys d"
  by (simp add: keys_def dom_map_entry)

lemma map_entry_absent: "k \<notin> keys d \<Longrightarrow> AList.map_entry k f d = d"
  by (induction d) (auto simp: keys_def)

lemma map_entry_present:
  "map_of d k = Some v \<Longrightarrow> AList.map_entry k f d = AList.update k (f v) d"
  by (induction d) (auto split: if_splits)

lemma map_of_present: "distinct (map fst d) \<Longrightarrow> (k, v) \<in> set d \<Longrightarrow> map_of d k = Some v"
  by simp

lemma set_map_entry_cases:
  "(n, i) \<in> set (AList.map_entry k f d) \<Longrightarrow> (n, i) \<in> set d \<or> (\<exists>j. (n, j) \<in> set d \<and> i = f j)"
  by (induction d) (auto split: if_splits)

section \<open>The load balancer: selection and the load floor\<close>

lemma hd_sort_key_min:
  assumes "cs \<noteq> []"
  shows "hd (sort_key f cs) \<in> set cs \<and> (\<forall>c \<in> set cs. f (hd (sort_key f cs)) \<le> f c)"
proof -
  let ?s = "sort_key f cs"
  from assms have ne: "?s \<noteq> []" by (metis length_sort length_0_conv)
  then obtain x xs where s: "?s = x # xs" by (cases ?s) auto
  have "sorted (map f ?s)" by (rule sorted_sort_key)
  with s have "\<forall>y \<in> set xs. f x \<le> f y" by simp
  moreover have "set ?s = set cs" by simp
  ultimately show ?thesis using s by (metis list.sel(1) list.set_intros(1) order_refl set_ConsD)
qed

lemma candidates_empty_iff:
  "candidates lb req = [] \<longleftrightarrow> (\<forall>(n, i) \<in> set (servers lb). \<not> qualifies req i)"
  by (auto simp: candidates_def qualifies_def filter_empty_conv)

lemma candidates_mem:
  "(n, l) \<in> set (candidates lb req) \<longleftrightarrow> (\<exists>i. (n, i) \<in> set (servers lb) \<and> qualifies req i \<and> l = current_load i)"
  by (auto simp: candidates_def qualifies_def)

lemma select_server_none:
  "candidates lb req = [] \<Longrightarrow> select_server lb req = (None, lb)"
  by (simp add: select_server_def)

lemma select_server_some:
  assumes d: "distinct (map fst (servers lb))" and ne: "candidates lb req \<noteq> []"
  shows "\<exists>n i. select_server lb req =
           (Some n, lb\<lparr>servers := AList.update n
              (i\<lparr>current_load := current_load i + 1, total_handled := total_handled i + 1\<rparr>) (servers lb)\<rparr>)
         \<and> (n, i) \<in> set (servers lb) \<and> qualifies req i
         \<and> (\<forall>(m, j) \<in> set (servers lb). qualifies req j \<longrightarrow> current_load i \<le> current_load j)"
proof -
  let ?c = "hd (sort_key snd (candidates lb req))"
  obtain n l where c: "?c = (n, l)" by (cases ?c)
  from hd_sort_key_min [OF ne, of snd] c
  have mem: "(n, l) \<in> set (candidates lb req)"
    and least: "\<forall>c \<in> set (candidates lb req). l \<le> snd c" by auto
  from mem obtain i where i: "(n, i) \<in> set (servers lb)" "qualifies req i" "l = current_load i"
    by (auto simp: candidates_mem)
  from d i(1) have look: "map_of (servers lb) n = Some i" by simp
  have look1: "map_of (AList.update n (bump_load i) (servers lb)) n = Some (bump_load i)"
    by (simp add: update_conv')
  have upd: "AList.map_entry n bump_handled (AList.map_entry n bump_load (servers lb))
     = AList.update n (i\<lparr>current_load := current_load i + 1, total_handled := total_handled i + 1\<rparr>) (servers lb)"
  proof -
    have "AList.map_entry n bump_handled (AList.map_entry n bump_load (servers lb))
        = AList.map_entry n bump_handled (AList.update n (bump_load i) (servers lb))"
      by (simp only: map_entry_present [OF look])
    also have "\<dots> = AList.update n (bump_handled (bump_load i)) (AList.update n (bump_load i) (servers lb))"
      by (rule map_entry_present [OF look1])
    also have "\<dots> = AList.update n (bump_handled (bump_load i)) (servers lb)"
      by simp
    finally show ?thesis by (simp add: bump_load_def bump_handled_def)
  qed
  have sel: "select_server lb req = (Some n, lb\<lparr>servers := AList.update n
              (i\<lparr>current_load := current_load i + 1, total_handled := total_handled i + 1\<rparr>) (servers lb)\<rparr>)"
    using ne c upd by (simp add: select_server_def Let_def)
  have "\<forall>(m, j) \<in> set (servers lb). qualifies req j \<longrightarrow> current_load i \<le> current_load j"
  proof (clarify)
    fix m j assume "(m, j) \<in> set (servers lb)" "qualifies req j"
    then have "(m, current_load j) \<in> set (candidates lb req)" by (auto simp: candidates_mem)
    with least i(3) show "current_load i \<le> current_load j" by fastforce
  qed
  with sel i show ?thesis by blast
qed


text \<open>
  C6. For every balancer and every list of required capabilities: when no provider's
  capability set contains the required ones, \<open>select_server\<close> returns no name and changes
  nothing; otherwise it returns the name of a registered provider that qualifies and whose
  load is the lowest among the qualifying ones, and that provider's \<open>current_load\<close> and
  \<open>total_handled\<close> are each one higher afterwards (nothing else changes).
\<close>

theorem select_server_least_loaded:
  assumes "distinct (map fst (servers lb))"
  shows "if \<forall>(n, i) \<in> set (servers lb). \<not> qualifies req i
         then select_server lb req = (None, lb)
         else \<exists>n i. select_server lb req =
                 (Some n, lb\<lparr>servers := AList.update n
                    (i\<lparr>current_load := current_load i + 1, total_handled := total_handled i + 1\<rparr>)
                    (servers lb)\<rparr>)
               \<and> (n, i) \<in> set (servers lb) \<and> qualifies req i
               \<and> (\<forall>(m, j) \<in> set (servers lb). qualifies req j \<longrightarrow> current_load i \<le> current_load j)"
proof (cases "candidates lb req = []")
  case True
  then show ?thesis using select_server_none [OF True] by (simp add: candidates_empty_iff)
next
  case False
  then have "\<not> (\<forall>(n, i) \<in> set (servers lb). \<not> qualifies req i)"
    by (simp add: candidates_empty_iff)
  with select_server_some [OF assms False] show ?thesis by (simp only: if_False)
qed

theorem select_server_least_loaded_witness:
  "distinct (map fst (servers busy_idle))
   \<and> select_server busy_idle [''search''] =
       (Some ''idle'', \<lparr>servers =
         [(''busy'', \<lparr>capabilities = {''search''}, current_load = 2, total_handled = 2\<rparr>),
          (''idle'', \<lparr>capabilities = {''search'', ''classify''}, current_load = 1, total_handled = 1\<rparr>)]\<rparr>)
   \<and> distinct (map fst (servers search_only))
   \<and> select_server search_only [''search'', ''classify''] = (None, search_only)"
proof -
  have d1: "distinct (map fst (servers busy_idle))" by (simp add: busy_idle_def)
  have d2: "distinct (map fst (servers search_only))" by (simp add: search_only_def)
  have a: "select_server search_only [''search'', ''classify''] = (None, search_only)"
    using select_server_least_loaded [OF d2, of "[''search'', ''classify'']"]
    by (simp add: search_only_def qualifies_def)
  have b: "select_server busy_idle [''search''] =
       (Some ''idle'', \<lparr>servers =
         [(''busy'', \<lparr>capabilities = {''search''}, current_load = 2, total_handled = 2\<rparr>),
          (''idle'', \<lparr>capabilities = {''search'', ''classify''}, current_load = 1, total_handled = 1\<rparr>)]\<rparr>)"
    using select_server_least_loaded [OF d1, of "[''search'']"]
    by (auto simp: busy_idle_def qualifies_def)
  from d1 d2 a b show ?thesis by simp
qed

lemma set_update_subset: "set (AList.update k v al) \<subseteq> insert (k, v) (set al)"
  by (induction al) auto

lemma loads_nonneg_iff: "loads_nonneg lb \<longleftrightarrow> (\<forall>(n, i) \<in> set (servers lb). 0 \<le> current_load i)"
  by (simp add: loads_nonneg_def list_all_iff)

lemma loads_nonneg_map_entry:
  assumes "loads_nonneg lb" and "\<And>i. 0 \<le> current_load i \<Longrightarrow> 0 \<le> current_load (f i)"
  shows "loads_nonneg (lb\<lparr>servers := AList.map_entry k f (servers lb)\<rparr>)"
  using assms by (fastforce simp: loads_nonneg_iff dest: set_map_entry_cases)

lemma loads_nonneg_register: "loads_nonneg lb \<Longrightarrow> loads_nonneg (register_server lb name caps)"
  using set_update_subset [of name _ "servers lb"]
  by (fastforce simp: loads_nonneg_iff register_server_def)

lemma loads_nonneg_select: "loads_nonneg lb \<Longrightarrow> loads_nonneg (snd (select_server lb req))"
  by (auto simp: select_server_def Let_def bump_load_def bump_handled_def
      intro!: loads_nonneg_map_entry [of "lb\<lparr>servers := _\<rparr>", simplified] loads_nonneg_map_entry)

lemma loads_nonneg_release: "loads_nonneg lb \<Longrightarrow> loads_nonneg (release lb name)"
  by (auto simp: release_def intro!: loads_nonneg_map_entry)

lemma loads_nonneg_apply_op: "loads_nonneg lb \<Longrightarrow> loads_nonneg (apply_op lb x)"
  by (cases x) (simp_all add: loads_nonneg_register loads_nonneg_select loads_nonneg_release)

lemma loads_nonneg_foldl: "loads_nonneg lb \<Longrightarrow> loads_nonneg (foldl apply_op lb ops)"
  by (induction ops arbitrary: lb) (simp_all add: loads_nonneg_apply_op)

lemma release_registered:
  assumes "map_of (servers lb) n = Some i"
  shows "servers (release lb n) = AList.update n (i\<lparr>current_load := max 0 (current_load i - 1)\<rparr>) (servers lb)"
proof -
  from assms have "n \<in> keys (servers lb)" by (auto simp: keys_def dest: map_of_SomeD intro: rev_image_eqI)
  then show ?thesis by (simp add: release_def map_entry_present [OF assms])
qed

lemma release_lookup:
  assumes "map_of (servers lb) n = Some i"
  shows "map_of (servers (release lb n)) n = Some (i\<lparr>current_load := max 0 (current_load i - 1)\<rparr>)"
  by (simp add: release_registered [OF assms] update_conv')

lemma release_repeat:
  assumes "map_of (servers lb) n = Some i" and "0 \<le> current_load i"
  shows "map_of (servers (((\<lambda>l. release l n) ^^ k) lb)) n
         = Some (i\<lparr>current_load := max 0 (current_load i - int k)\<rparr>)"
proof (induction k)
  case 0
  from assms show ?case by simp
next
  case (Suc k)
  show ?case using release_lookup [OF Suc.IH] by (simp add: max_def)
qed

text \<open>
  C7. After every sequence of \<open>register_server\<close>, \<open>select_server\<close>, \<open>release\<close> and
  \<open>load_distribution\<close> calls on a new balancer, every provider's load is at least zero;
  \<open>release\<close> of a registered provider sets its load to the maximum of zero and the load
  minus one, so that releasing at least as often as the load is high leaves the load at zero.
\<close>

theorem current_load_never_negative:
  "loads_nonneg (run_ops ops)
   \<and> (\<forall>lb n i. map_of (servers lb) n = Some i \<longrightarrow>
        map_of (servers (release lb n)) n = Some (i\<lparr>current_load := max 0 (current_load i - 1)\<rparr>))
   \<and> (\<forall>lb n i k. map_of (servers lb) n = Some i \<longrightarrow> 0 \<le> current_load i \<longrightarrow> current_load i \<le> int k \<longrightarrow>
        map_of (servers (((\<lambda>l. release l n) ^^ k) lb)) n = Some (i\<lparr>current_load := 0\<rparr>))"
proof -
  have "loads_nonneg new_load_balancer" by (simp add: loads_nonneg_def new_load_balancer_def)
  then have "loads_nonneg (run_ops ops)" unfolding run_ops_def by (rule loads_nonneg_foldl)
  moreover have "map_of (servers (((\<lambda>l. release l n) ^^ k) lb)) n = Some (i\<lparr>current_load := 0\<rparr>)"
    if "map_of (servers lb) n = Some i" "0 \<le> current_load i" "current_load i \<le> int k" for lb n i k
    using release_repeat [OF that(1,2), of k] that(3) by (simp add: max_def)
  ultimately show ?thesis using release_lookup by blast
qed

theorem current_load_never_negative_witness:
  "loads_nonneg over_released
   \<and> servers over_released = [(''nlp'', \<lparr>capabilities = {''search''}, current_load = 0, total_handled = 1\<rparr>)]"
proof -
  have "loads_nonneg over_released"
    unfolding over_released_def using current_load_never_negative by blast
  moreover have "servers over_released = [(''nlp'', \<lparr>capabilities = {''search''}, current_load = 0, total_handled = 1\<rparr>)]"
    by (simp add: over_released_def run_ops_def register_server_def new_load_balancer_def
        select_server_def candidates_def release_def keys_def Let_def bump_load_def bump_handled_def)
  ultimately show ?thesis by simp
qed

section \<open>The load balancer: release\<close>

text \<open>
  C10. Releasing a name that was never registered raises nothing and leaves the balancer
  as it was: every server keeps its load and its count of handled requests.
\<close>

theorem release_unregistered:
  "server_name \<notin> keys (servers lb) \<Longrightarrow> release lb server_name = lb"
  by (simp add: release_def)

theorem release_unregistered_witness:
  "''ghost'' \<notin> keys (servers (register_server new_load_balancer ''nlp'' [''search'']))
   \<and> release (register_server new_load_balancer ''nlp'' [''search'']) ''ghost''
     = register_server new_load_balancer ''nlp'' [''search'']"
proof -
  have absent: "''ghost'' \<notin> keys (servers (register_server new_load_balancer ''nlp'' [''search'']))"
    by (simp add: register_server_def new_load_balancer_def keys_def)
  from release_unregistered [OF absent] absent show ?thesis by simp
qed

section \<open>The cache: key derivation and eviction\<close>

lemma alist_rebuild:
  "distinct (map fst zs) \<Longrightarrow> map (\<lambda>k. (k, the (map_of zs k))) (map fst zs) = zs"
proof (induction zs)
  case Nil
  show ?case by simp
next
  case (Cons z zs)
  obtain k v where z: "z = (k, v)" by (cases z)
  from Cons.prems have d: "distinct (map fst zs)" and nk: "k \<notin> fst ` set zs" by (auto simp: z)
  have "map (\<lambda>k'. (k', the (map_of (z # zs) k'))) (map fst zs)
        = map (\<lambda>k'. (k', the (map_of zs k'))) (map fst zs)"
    using nk by (auto simp: z)
  with Cons.IH [OF d] show ?case by (simp add: z)
qed

lemma sorted_keys_unique:
  assumes "distinct (map fst xs)" "distinct (map fst ys)" "fst ` set xs = fst ` set ys"
  shows "map fst (sort_key fst xs) = map fst (sort_key fst ys)"
proof (rule sorted_distinct_set_unique)
  show "sorted (map fst (sort_key fst xs))" "sorted (map fst (sort_key fst ys))"
    by (rule sorted_sort_key)+
  have "mset (map fst (sort_key fst xs)) = mset (map fst xs)"
       "mset (map fst (sort_key fst ys)) = mset (map fst ys)"
    by simp_all
  then show "distinct (map fst (sort_key fst xs))" "distinct (map fst (sort_key fst ys))"
    using assms(1,2) by (metis mset_eq_imp_distinct_iff)+
  show "set (map fst (sort_key fst xs)) = set (map fst (sort_key fst ys))"
    using assms(3) by simp
qed

lemma sort_key_fst_rebuild:
  assumes "distinct (map fst xs)"
  shows "sort_key fst xs = map (\<lambda>k. (k, the (map_of xs k))) (map fst (sort_key fst xs))"
proof -
  have "mset (map fst (sort_key fst xs)) = mset (map fst xs)" by simp
  with assms have d: "distinct (map fst (sort_key fst xs))" by (metis mset_eq_imp_distinct_iff)
  have "map_of (sort_key fst xs) = map_of xs"
    using d assms by (simp add: map_of_inject_set)
  with alist_rebuild [OF d] show ?thesis by simp
qed

lemma same_json_dumps: "same_json a b \<Longrightarrow> dumps a = dumps b"
proof (induction rule: same_json.induct)
  case (5 xs ys)
  then have "map dumps xs = map dumps ys"
    by (induction rule: list_all2_induct) auto
  then show ?case by simp
next
  case (6 xs ys)
  let ?render = "\<lambda>(k, v). encode_str k @ '': '' @ dumps v"
  from "6.IH" have rel: "\<And>k. rel_option (\<lambda>a b. dumps a = dumps b) (map_of xs k) (map_of ys k)"
    by (auto intro: option.rel_mono_strong)
  have "fst ` set xs = fst ` set ys"
  proof -
    have "map_of xs k = None \<longleftrightarrow> map_of ys k = None" for k
      using rel [of k] by (cases "map_of xs k"; cases "map_of ys k") auto
    then show ?thesis by (auto simp: map_of_eq_None_iff)
  qed
  from sorted_keys_unique [OF "6.hyps"(1,2) this]
  have ks: "map fst (sort_key fst xs) = map fst (sort_key fst ys)" .
  let ?ks = "map fst (sort_key fst ys)"
  have "map ?render (sort_key fst xs)
        = map (\<lambda>k. encode_str k @ '': '' @ dumps (the (map_of xs k))) ?ks"
    by (subst sort_key_fst_rebuild [OF "6.hyps"(1)]) (simp add: ks o_def)
  also have "\<dots> = map (\<lambda>k. encode_str k @ '': '' @ dumps (the (map_of ys k))) ?ks"
  proof (rule map_cong [OF refl])
    fix k assume "k \<in> set ?ks"
    show "encode_str k @ '': '' @ dumps (the (map_of xs k)) = encode_str k @ '': '' @ dumps (the (map_of ys k))"
      using rel [of k] by (cases "map_of xs k"; cases "map_of ys k") auto
  qed
  also have "\<dots> = map ?render (sort_key fst ys)"
    by (subst (2) sort_key_fst_rebuild [OF "6.hyps"(2)]) (simp add: o_def)
  finally show ?case by simp
qed simp_all

lemma same_json_flat:
  assumes "distinct (map fst c1)" "distinct (map fst c2)" "set c1 = set c2"
    and "\<And>k v. (k, v) \<in> set c1 \<Longrightarrow> same_json v v"
  shows "same_json (JDict c1) (JDict c2)"
proof (rule same_json.intros(6) [OF assms(1,2)], rule allI)
  fix k
  from assms(1-3) have m: "map_of c1 = map_of c2" by (simp add: map_of_inject_set)
  show "rel_option same_json (map_of c1 k) (map_of c2 k)"
  proof (cases "map_of c1 k")
    case None
    with m show ?thesis by simp
  next
    case (Some v)
    then have "(k, v) \<in> set c1" by (rule map_of_SomeD)
    with assms(4) Some m show ?thesis by simp
  qed
qed

lemma make_key_order_independent:
  assumes "same_json (JDict c1) (JDict c2)"
  shows "make_key q c1 = make_key q c2"
  using same_json_dumps [OF assms] by (simp add: make_key_def)

lemma put_key_stores:
  assumes "put_key c key v = (None, c')"
  shows "map_of (store c') key = Some v \<and> key \<in> set (access_order c')"
  using assms
  by (auto simp: put_key_def Let_def update_conv' split: if_splits list.splits prod.splits option.splits)

lemma get_key_hit:
  assumes "map_of (store c) key = Some v" "key \<in> set (access_order c)"
  shows "fst (get_key c key) = Inr (Some v)"
proof -
  from assms(1) have "key \<in> keys (store c)"
    by (auto simp: keys_def dest: map_of_SomeD intro: rev_image_eqI)
  with assms show ?thesis by (simp add: get_key_def Let_def)
qed


lemma in_keys_iff: "k \<in> keys d \<longleftrightarrow> map_of d k \<noteq> None"
  by (simp add: keys_def map_of_eq_None_iff)

lemma cache_inv_head:
  assumes "cache_inv c" "store c \<noteq> []"
  shows "access_order c \<noteq> [] \<and> hd (access_order c) \<in> keys (store c)"
proof -
  from assms(2) have "keys (store c) \<noteq> {}" by (simp add: keys_def)
  with assms(1) have ne: "access_order c \<noteq> []" by (auto simp: cache_inv_def)
  then have "hd (access_order c) \<in> set (access_order c)" by simp
  with assms(1) have "hd (access_order c) \<in> keys (store c)" by (simp add: cache_inv_def)
  with ne show ?thesis by simp
qed

lemma put_key_evict:
  assumes inv: "cache_inv c" and pos: "0 < max_size c"
    and new: "key \<notin> keys (store c)" and full: "max_size c \<le> int (length (store c))"
  shows "put_key c key v =
           (None, c\<lparr>access_order := tl (access_order c) @ [key],
                    store := AList.update key v (AList.delete (hd (access_order c)) (store c))\<rparr>)"
proof -
  from pos full have ne: "store c \<noteq> []" by auto
  from cache_inv_head [OF inv ne] obtain oldest rest
    where ao: "access_order c = oldest # rest" and old: "oldest \<in> keys (store c)"
    by (cases "access_order c") auto
  from inv ao new have "key \<notin> set rest" by (auto simp: cache_inv_def)
  with ao old new full show ?thesis
    by (simp add: put_key_def Let_def)
qed

lemma put_key_room:
  assumes inv: "cache_inv c" and new: "key \<notin> keys (store c)" and room: "int (length (store c)) < max_size c"
  shows "put_key c key v =
           (None, c\<lparr>store := AList.update key v (store c), access_order := access_order c @ [key]\<rparr>)"
  using assms by (simp add: put_key_def Let_def cache_inv_def)

lemma put_key_overwrite:
  assumes inv: "cache_inv c" and old: "key \<in> keys (store c)"
  shows "put_key c key v = (None, c\<lparr>store := AList.update key v (store c)\<rparr>)"
  using assms by (simp add: put_key_def Let_def cache_inv_def)

lemma keys_update: "keys (AList.update k v d) = insert k (keys d)"
  by (simp add: keys_def dom_update)

lemma keys_delete: "keys (AList.delete k d) = keys d - {k}"
  by (auto simp: keys_def AList.delete_eq)

lemma put_key_returns:
  assumes "cache_inv c" "0 < max_size c"
  shows "fst (put_key c key v) = None"
proof (cases "key \<in> keys (store c)")
  case True
  then show ?thesis by (simp add: put_key_overwrite [OF assms(1)])
next
  case False
  show ?thesis
  proof (cases "max_size c \<le> int (length (store c))")
    case True
    then show ?thesis by (simp add: put_key_evict [OF assms False])
  next
    case False
    with \<open>key \<notin> keys (store c)\<close> show ?thesis by (simp add: put_key_room [OF assms(1)])
  qed
qed

text \<open>
  C3, as amended. For every query and every two contexts that hold the same keys with
  the same values (\<open>same_json\<close>: values of the same type, in whatever insertion order,
  also inside nested values), \<open>make_key\<close> gives the same key; so whenever \<open>put q c1 v\<close>
  has returned, on any cache, \<open>get q c2\<close> on the cache it left returns \<open>v\<close>; and \<open>put\<close>
  does return on every cache reached from a new one of positive capacity.
\<close>

theorem cache_key_order_independent:
  assumes "same_json (JDict c1) (JDict c2)"
  shows "make_key q c1 = make_key q c2
         \<and> (put c q c1 v = (None, c') \<longrightarrow> fst (get c' q c2) = Inr (Some v))
         \<and> (cache_inv c \<and> 0 < max_size c \<longrightarrow> fst (put c q c1 v) = None)"
proof -
  have k: "make_key q c1 = make_key q c2" by (rule make_key_order_independent [OF assms])
  have "fst (get c' q c2) = Inr (Some v)" if "put c q c1 v = (None, c')"
  proof -
    from that have "put_key c (make_key q c2) v = (None, c')" by (simp add: put_def k)
    from put_key_stores [OF this] show ?thesis by (simp add: get_def get_key_hit)
  qed
  moreover have "fst (put c q c1 v) = None" if "cache_inv c \<and> 0 < max_size c"
    using that by (simp add: put_def put_key_returns)
  ultimately show ?thesis using k by blast
qed

theorem cache_key_order_independent_witness:
  "same_json (JDict ctx_ab) (JDict ctx_ba)
   \<and> make_key ''q'' ctx_ab = make_key ''q'' ctx_ba
   \<and> fst (put (new_cache 256) ''q'' ctx_ab ''v'') = None
   \<and> fst (get (snd (put (new_cache 256) ''q'' ctx_ab ''v'')) ''q'' ctx_ba) = Inr (Some ''v'')
   \<and> same_json (JDict ctx_nested) (JDict ctx_nested_swapped)
   \<and> make_key ''q'' ctx_nested = make_key ''q'' ctx_nested_swapped"
proof -
  have h: "same_json (JDict ctx_ab) (JDict ctx_ba)"
    by (rule same_json_flat) (auto simp: ctx_ab_def ctx_ba_def intro: same_json.intros)
  have inner: "same_json (JDict ctx_ab) (JDict ctx_ab)"
    by (rule same_json_flat) (auto simp: ctx_ab_def intro: same_json.intros)
  have n: "same_json (JDict ctx_nested) (JDict ctx_nested_swapped)"
    unfolding ctx_nested_def ctx_nested_swapped_def
    by (rule same_json.intros(6)) (auto intro: same_json.intros h inner)
  have inv: "cache_inv (new_cache 256 :: string cache) \<and> 0 < max_size (new_cache 256 :: string cache)"
    by (simp add: cache_inv_def new_cache_def keys_def)
  let ?c' = "snd (put (new_cache 256) ''q'' ctx_ab ''v'')"
  from cache_key_order_independent [OF h, of "''q''" "new_cache 256" "''v''" ?c'] inv
  have "make_key ''q'' ctx_ab = make_key ''q'' ctx_ba
      \<and> fst (put (new_cache 256) ''q'' ctx_ab ''v'') = None
      \<and> fst (get ?c' ''q'' ctx_ba) = Inr (Some ''v'')"
    by (metis prod.collapse)
  moreover have "make_key ''q'' ctx_nested = make_key ''q'' ctx_nested_swapped"
    by (rule cache_key_order_independent [OF n, THEN conjunct1])
  ultimately show ?thesis using h n by simp
qed

text \<open>
  C3 as stated fails: equality of the two contexts as Python mappings is not enough. The
  contexts \<^verbatim>\<open>{"a": 1}\<close>, \<^verbatim>\<open>{"a": True}\<close> and \<^verbatim>\<open>{"a": 1.0}\<close> are equal mappings, and so are
  \<^verbatim>\<open>{"a": 0.0}\<close> and \<^verbatim>\<open>{"a": -0.0}\<close>, but \<^verbatim>\<open>json.dumps\<close> writes their values differently:
  the keys differ and \<open>get\<close> with the second context after \<open>put\<close> with the first is a
  miss.
\<close>

theorem equal_contexts_different_keys:
  "py_equal (JDict ctx_int) (JDict ctx_bool)
   \<and> make_key ''q'' ctx_int \<noteq> make_key ''q'' ctx_bool
   \<and> fst (put (new_cache 256) ''q'' ctx_int ''v'') = None
   \<and> fst (get (snd (put (new_cache 256) ''q'' ctx_int ''v'')) ''q'' ctx_bool) = Inr None
   \<and> py_equal (JDict ctx_int) (JDict ctx_float)
   \<and> fst (get (snd (put (new_cache 256) ''q'' ctx_int ''v'')) ''q'' ctx_float) = Inr None
   \<and> py_equal (JDict ctx_zero) (JDict ctx_minus_zero)
   \<and> fst (put (new_cache 256) ''q'' ctx_zero ''v'') = None
   \<and> fst (get (snd (put (new_cache 256) ''q'' ctx_zero ''v'')) ''q'' ctx_minus_zero) = Inr None"
proof -
  note ctx_defs = ctx_int_def ctx_bool_def ctx_float_def ctx_zero_def ctx_minus_zero_def
  note key_simps = make_key_def encode_str_def escape_char_def str_int_def str_nat.simps hex_digit_def
  note cache_simps = get_def put_def get_key_def put_key_def new_cache_def keys_def Let_def
  have flat: "py_equal (JDict [(k, a)]) (JDict [(k, b)])" if "py_equal a b" for k a b
    by (rule py_equal.intros(7)) (simp_all add: that)
  have "py_equal (JInt 1) (JBool True)"
    by (rule py_equal.intros(2) [where v = 1]) simp_all
  then have e1: "py_equal (JDict ctx_int) (JDict ctx_bool)"
    unfolding ctx_defs by (rule flat)
  have "py_equal (JInt 1) (JFloat (Finite 1 ''1.0''))"
    by (rule py_equal.intros(2) [where v = 1]) simp_all
  then have e2: "py_equal (JDict ctx_int) (JDict ctx_float)"
    unfolding ctx_defs by (rule flat)
  have "py_equal (JFloat (Finite 0 ''0.0'')) (JFloat (Finite 0 ''-0.0''))"
    by (rule py_equal.intros(2) [where v = 0]) simp_all
  then have e3: "py_equal (JDict ctx_zero) (JDict ctx_minus_zero)"
    unfolding ctx_defs by (rule flat)
  have k: "make_key ''q'' ctx_int \<noteq> make_key ''q'' ctx_bool"
    by (simp add: ctx_defs key_simps)
  have p1: "fst (put (new_cache 256) ''q'' ctx_int ''v'') = None"
    by (simp add: cache_simps)
  have g1: "fst (get (snd (put (new_cache 256) ''q'' ctx_int ''v'')) ''q'' ctx_bool) = Inr None"
    by (simp add: cache_simps ctx_defs key_simps)
  have g2: "fst (get (snd (put (new_cache 256) ''q'' ctx_int ''v'')) ''q'' ctx_float) = Inr None"
    by (simp add: cache_simps ctx_defs key_simps)
  have p3: "fst (put (new_cache 256) ''q'' ctx_zero ''v'') = None"
    by (simp add: cache_simps)
  have g3: "fst (get (snd (put (new_cache 256) ''q'' ctx_zero ''v'')) ''q'' ctx_minus_zero) = Inr None"
    by (simp add: cache_simps ctx_defs key_simps)
  from e1 k p1 g1 e2 g2 e3 p3 g3 show ?thesis by simp
qed

text \<open>
  C4, as amended: on every cache of capacity at least one (reached from a new cache, so
  that \<open>cache_inv\<close> holds), \<open>put\<close> of a key that is not in the store, when the store holds
  \<open>max_size\<close> entries or more, removes exactly the head of the access-order list from the
  store and from the list, then inserts the new entry at the end; \<open>put\<close> of a key that is
  in the store replaces its value and evicts nothing.
\<close>

theorem put_evicts_least_recently_used:
  assumes "cache_inv c" "0 < max_size c"
  shows "(key \<notin> keys (store c) \<and> max_size c \<le> int (length (store c)) \<longrightarrow>
            put_key c key v =
              (None, c\<lparr>access_order := tl (access_order c) @ [key],
                       store := AList.update key v (AList.delete (hd (access_order c)) (store c))\<rparr>)
            \<and> hd (access_order c) \<in> keys (store c)
            \<and> keys (store (snd (put_key c key v))) = insert key (keys (store c) - {hd (access_order c)}))
       \<and> (key \<in> keys (store c) \<longrightarrow>
            put_key c key v = (None, c\<lparr>store := AList.update key v (store c)\<rparr>)
            \<and> keys (store (snd (put_key c key v))) = keys (store c))"
proof (intro conjI impI)
  assume a: "key \<notin> keys (store c) \<and> max_size c \<le> int (length (store c))"
  then have e: "put_key c key v =
              (None, c\<lparr>access_order := tl (access_order c) @ [key],
                       store := AList.update key v (AList.delete (hd (access_order c)) (store c))\<rparr>)"
    using put_key_evict [OF assms] by simp
  then show "put_key c key v =
              (None, c\<lparr>access_order := tl (access_order c) @ [key],
                       store := AList.update key v (AList.delete (hd (access_order c)) (store c))\<rparr>)" .
  from a assms(2) have "store c \<noteq> []" by auto
  from cache_inv_head [OF assms(1) this] show "hd (access_order c) \<in> keys (store c)" by simp
  from e show "keys (store (snd (put_key c key v))) = insert key (keys (store c) - {hd (access_order c)})"
    by (simp add: keys_update keys_delete)
next
  assume a: "key \<in> keys (store c)"
  from put_key_overwrite [OF assms(1) a]
  show "put_key c key v = (None, c\<lparr>store := AList.update key v (store c)\<rparr>)" .
  then show "keys (store (snd (put_key c key v))) = keys (store c)"
    using a by (auto simp: keys_update)
qed


lemma make_key_empty_ctx: "make_key q [] = q @ ''::{}''"
  by (simp add: make_key_def)

lemma cache_k1k2_eq:
  "cache_k1k2 = \<lparr>max_size = 2, store = [(''q1::{}'', ''v1''), (''q2::{}'', ''v2'')],
                  access_order = [''q1::{}'', ''q2::{}''], hits = 0, misses = 0\<rparr>"
  by (simp add: cache_k1k2_def put_def put_key_def new_cache_def make_key_empty_ctx keys_def Let_def)

theorem put_evicts_least_recently_used_witness:
  "cache_inv cache_k1k2 \<and> 0 < max_size cache_k1k2
   \<and> make_key ''q3'' [] \<notin> keys (store cache_k1k2)
   \<and> max_size cache_k1k2 \<le> int (length (store cache_k1k2))
   \<and> hd (access_order cache_k1k2) = make_key ''q1'' []
   \<and> put cache_k1k2 ''q3'' [] ''v3'' =
        (None, \<lparr>max_size = 2, store = [(''q2::{}'', ''v2''), (''q3::{}'', ''v3'')],
                 access_order = [''q2::{}'', ''q3::{}''], hits = 0, misses = 0\<rparr>)
   \<and> fst (get (snd (put cache_k1k2 ''q3'' [] ''v3'')) ''q1'' []) = Inr None"
proof -
  have inv: "cache_inv cache_k1k2" and pos: "0 < max_size cache_k1k2"
    by (auto simp: cache_k1k2_eq cache_inv_def keys_def)
  have new: "make_key ''q3'' [] \<notin> keys (store cache_k1k2)"
    and full: "max_size cache_k1k2 \<le> int (length (store cache_k1k2))"
    and lru: "hd (access_order cache_k1k2) = make_key ''q1'' []"
    by (simp_all add: cache_k1k2_eq make_key_empty_ctx keys_def)
  from put_evicts_least_recently_used [OF inv pos, of "make_key ''q3'' []" "''v3''"] new full
  have "put cache_k1k2 ''q3'' [] ''v3'' =
      (None, cache_k1k2\<lparr>access_order := tl (access_order cache_k1k2) @ [make_key ''q3'' []],
         store := AList.update (make_key ''q3'' []) ''v3''
                    (AList.delete (hd (access_order cache_k1k2)) (store cache_k1k2))\<rparr>)"
    by (simp add: put_def)
  then have p: "put cache_k1k2 ''q3'' [] ''v3'' =
        (None, \<lparr>max_size = 2, store = [(''q2::{}'', ''v2''), (''q3::{}'', ''v3'')],
                 access_order = [''q2::{}'', ''q3::{}''], hits = 0, misses = 0\<rparr>)"
    by (simp add: cache_k1k2_eq make_key_empty_ctx)
  have "fst (get (snd (put cache_k1k2 ''q3'' [] ''v3'')) ''q1'' []) = Inr None"
    by (simp add: p get_def get_key_def make_key_empty_ctx keys_def)
  with inv pos new full lru p show ?thesis by simp
qed

text \<open>
  C4 as stated fails on a cache of capacity zero: its store holds \<open>max_size\<close> entries
  (none), the key is new, and \<open>put\<close> raises \<^verbatim>\<open>IndexError\<close> from \<^verbatim>\<open>pop(0)\<close> and inserts
  nothing.
\<close>

theorem put_raises_on_zero_capacity:
  "cache_inv (new_cache 0 :: string cache)
   \<and> int (length (store (new_cache 0 :: string cache))) = max_size (new_cache 0 :: string cache)
   \<and> make_key ''q1'' [] \<notin> keys (store (new_cache 0 :: string cache))
   \<and> put (new_cache 0) ''q1'' [] ''v1'' = (Some index_error, new_cache 0)
   \<and> make_key ''q1'' [] \<notin> keys (store (snd (put (new_cache 0) ''q1'' [] ''v1'')))"
  by (simp add: put_def put_key_def new_cache_def cache_inv_def keys_def)

text \<open>
  C5 does not hold of the code: with capacity two, after the keys of \<^verbatim>\<open>q1\<close> and \<^verbatim>\<open>q2\<close>
  were inserted in this order, \<open>put\<close> of a new value for \<^verbatim>\<open>q1\<close> leaves the key of \<^verbatim>\<open>q1\<close> at
  the head of the access-order list, not at its most-recently-used end, and the next
  insertion evicts the entry that was just written.
\<close>

theorem put_overwrite_keeps_position:
  "put cache_k1k2 ''q1'' [] ''v1b'' =
     (None, \<lparr>max_size = 2, store = [(''q1::{}'', ''v1b''), (''q2::{}'', ''v2'')],
              access_order = [''q1::{}'', ''q2::{}''], hits = 0, misses = 0\<rparr>)
   \<and> last (access_order (snd (put cache_k1k2 ''q1'' [] ''v1b''))) \<noteq> make_key ''q1'' []
   \<and> snd (put (snd (put cache_k1k2 ''q1'' [] ''v1b'')) ''q3'' [] ''v3'') =
       \<lparr>max_size = 2, store = [(''q2::{}'', ''v2''), (''q3::{}'', ''v3'')],
        access_order = [''q2::{}'', ''q3::{}''], hits = 0, misses = 0\<rparr>"
  by (simp add: cache_k1k2_eq put_def put_key_def make_key_empty_ctx keys_def Let_def)

lemma cache_inv_new: "cache_inv (new_cache n)"
  by (simp add: cache_inv_def new_cache_def keys_def)

lemma cache_inv_put_key:
  assumes "cache_inv c"
  shows "cache_inv (snd (put_key c key v))"
proof (cases "key \<in> keys (store c)")
  case True
  with assms show ?thesis
    by (auto simp: put_key_overwrite cache_inv_def keys_update distinct_update)
next
  case new: False
  show ?thesis
  proof (cases "max_size c \<le> int (length (store c))")
    case False
    with assms new show ?thesis
      by (auto simp: put_key_room cache_inv_def keys_update distinct_update)
  next
    case full: True
    show ?thesis
    proof (cases "access_order c")
      case Nil
      with assms new full show ?thesis by (simp add: put_key_def)
    next
      case (Cons oldest rest)
      with assms have old: "oldest \<in> keys (store c)" by (auto simp: cache_inv_def)
      from assms Cons new have nr: "key \<notin> set rest" by (auto simp: cache_inv_def)
      from Cons old new full nr
      have "snd (put_key c key v) =
              c\<lparr>access_order := rest @ [key],
                store := AList.update key v (AList.delete oldest (store c))\<rparr>"
        by (simp add: put_key_def Let_def)
      with assms Cons new nr show ?thesis
        by (auto simp: cache_inv_def keys_update keys_delete distinct_update distinct_delete)
    qed
  qed
qed

lemma cache_inv_get_key:
  assumes "cache_inv c"
  shows "cache_inv (snd (get_key c key))"
  using assms by (auto simp: get_key_def Let_def cache_inv_def)

section \<open>The monitor: bounded memory\<close>

lemma window_record_all: "window (record_all w ls) = w"
  unfolding record_all_def
  by (induction ls rule: rev_induct) (simp_all add: new_monitor_def record_latency_def Let_def)

lemma samples_record_all:
  assumes "0 < w"
  shows "samples (record_all w ls) = drop (length ls - nat (2 * w)) ls"
proof (induction ls rule: rev_induct)
  case Nil
  show ?case by (simp add: record_all_def new_monitor_def)
next
  case (snoc x ls)
  let ?m = "record_all w ls"
  have step: "record_all w (ls @ [x]) = record_latency ?m x" by (simp add: record_all_def)
  have win: "window ?m = w" by (rule window_record_all)
  show ?case
  proof (cases "nat (2 * w) \<le> length ls")
    case True
    with assms have len: "int (length (samples ?m)) = 2 * w" by (simp add: snoc.IH)
    have "samples (record_latency ?m x) = drop 1 (samples ?m @ [x])"
      using len assms by (simp add: record_latency_def Let_def win slice_from_def slice_start_def)
    also have "\<dots> = drop (Suc (length ls) - nat (2 * w)) (ls @ [x])"
      using True assms by (simp add: snoc.IH Suc_diff_le drop_Suc tl_drop)
    finally show ?thesis by (simp add: step)
  next
    case False
    then have same: "samples ?m = ls" by (simp add: snoc.IH)
    from False have small: "\<not> w * 2 < 1 + int (length ls)" by linarith
    from False have "Suc (length ls) - nat (2 * w) = 0" by linarith
    with same small show ?thesis
      by (simp add: step record_latency_def Let_def win)
  qed
qed

text \<open>
  C9, as amended: for every monitor of window at least one and every sequence of
  \<open>record\<close> calls, the retained samples are the most recent \<open>2 * window\<close> ones of those
  recorded (all of them while there are fewer), so never more than \<open>2 * window\<close>; after
  \<open>5 * window\<close> calls exactly \<open>2 * window\<close> are retained.
\<close>

theorem monitor_retains_most_recent:
  assumes "0 < w"
  shows "samples (record_all w ls) = drop (length ls - nat (2 * w)) ls
         \<and> int (length (samples (record_all w ls))) \<le> 2 * w
         \<and> (int (length ls) = 5 * w \<longrightarrow> int (length (samples (record_all w ls))) = 2 * w)"
  using assms by (auto simp: samples_record_all [OF assms])

theorem monitor_retains_most_recent_witness:
  "(0::int) < 2
   \<and> int (length [1, 2, 3, 4, 5, 6, 7, 8, 9, 10 :: real]) = 5 * 2
   \<and> samples (record_all 2 [1, 2, 3, 4, 5, 6, 7, 8, 9, 10 :: real]) = [7, 8, 9, 10]
   \<and> int (length (samples (record_all 2 [1, 2, 3, 4, 5, 6, 7, 8, 9, 10 :: real]))) = 2 * 2"
  using monitor_retains_most_recent [of 2 "[1, 2, 3, 4, 5, 6, 7, 8, 9, 10 :: real]"] by simp

text \<open>
  C9 as stated fails for a window of zero: \<^verbatim>\<open>self._samples[-0:]\<close> is the whole list, so
  nothing is ever dropped and three recorded samples are all retained.
\<close>

theorem monitor_unbounded_at_zero_window:
  "samples (record_all 0 [1, 2, 3 :: real]) = [1, 2, 3]
   \<and> 2 * window (record_all 0 [1, 2, 3 :: real]) < int (length (samples (record_all 0 [1, 2, 3 :: real])))"
  by (simp add: record_all_def record_latency_def new_monitor_def Let_def slice_from_def slice_start_def)

section \<open>The orchestrator: batches, depth and structural errors\<close>

subsection \<open>Unfolding the loop\<close>

lemma execute_loop_done:
  "remaining s = [] \<Longrightarrow> execute_loop delay f s = (Inr (completed s), counters s, trace s)"
  by (simp add: execute_loop.simps)

lemma execute_loop_stuck:
  "remaining s \<noteq> [] \<Longrightarrow> ready_tasks (completed s) (remaining s) = []
   \<Longrightarrow> execute_loop delay f s = (Inl cycle_error, counters s, trace s)"
  by (simp add: execute_loop.simps)

lemma execute_loop_fail:
  "remaining s \<noteq> [] \<Longrightarrow> ready_tasks (completed s) (remaining s) \<noteq> []
   \<Longrightarrow> gather delay f (ready_tasks (completed s) (remaining s)) = Inl e
   \<Longrightarrow> execute_loop delay f s =
         (Inl e, counters (start_batch (ready_tasks (completed s) (remaining s)) s),
                 trace (start_batch (ready_tasks (completed s) (remaining s)) s))"
  by (simp add: execute_loop.simps Let_def)

lemma execute_loop_step:
  "remaining s \<noteq> [] \<Longrightarrow> ready_tasks (completed s) (remaining s) \<noteq> []
   \<Longrightarrow> gather delay f (ready_tasks (completed s) (remaining s)) = Inr rs
   \<Longrightarrow> execute_loop delay f s = execute_loop delay f (after_batch s rs)"
  by (subst execute_loop.simps) (simp add: Let_def after_batch_def)

lemma execute_loop_induct [case_names loop]:
  assumes "\<And>delay f s. (\<And>rs. remaining s \<noteq> [] \<Longrightarrow> ready_tasks (completed s) (remaining s) \<noteq> []
                  \<Longrightarrow> gather delay f (ready_tasks (completed s) (remaining s)) = Inr rs
                  \<Longrightarrow> P delay f (after_batch s rs)) \<Longrightarrow> P delay f s"
  shows "P delay f s"
proof (induction delay f s rule: execute_loop.induct)
  case (1 delay f s)
  show ?case
  proof (rule assms)
    fix rs
    assume "remaining s \<noteq> []" "ready_tasks (completed s) (remaining s) \<noteq> []"
      "gather delay f (ready_tasks (completed s) (remaining s)) = Inr rs"
    then show "P delay f (after_batch s rs)"
      unfolding after_batch_def by (intro "1.IH") simp_all
  qed
qed

subsection \<open>The state after one batch\<close>

lemma record_results_fields:
  "completed (record_results ps s) = fold (\<lambda>(t, r). AList.update t r) ps (completed s)"
  "counters (record_results ps s) =
     (counters s)\<lparr>total_requests := total_requests (counters s) + int (length ps)\<rparr>"
  "trace (record_results ps s) = trace s @ map (Recorded \<circ> fst) ps"
  by (induction ps s rule: record_results.induct; simp)+

lemma keys_fold_update:
  "keys (fold (\<lambda>(t, r). AList.update t r) ps d) = keys d \<union> fst ` set ps"
  by (induction ps arbitrary: d) (auto simp: keys_update)

lemma zip_ready:
  assumes "gather delay f ts = Inr rs"
  shows "map fst (zip ts rs) = ts" "length (zip ts rs) = length ts" "fst ` set (zip ts rs) = set ts"
proof -
  from length_gather [OF assms] show a: "map fst (zip ts rs) = ts" by simp
  from length_gather [OF assms] show "length (zip ts rs) = length ts" by simp
  from a show "fst ` set (zip ts rs) = set ts" by (metis set_map)
qed

lemma after_batch_fields:
  assumes "gather delay f (ready_tasks (completed s) (remaining s)) = Inr rs"
  shows "remaining (after_batch s rs) =
           filter (\<lambda>(t, deps). t \<notin> set (ready_tasks (completed s) (remaining s))) (remaining s)"
    and "keys (completed (after_batch s rs)) =
           keys (completed s) \<union> set (ready_tasks (completed s) (remaining s))"
    and "counters (after_batch s rs) =
           (counters s)\<lparr>total_batches := total_batches (counters s) + 1,
              total_requests := total_requests (counters s)
                + int (length (ready_tasks (completed s) (remaining s)))\<rparr>"
    and "trace (after_batch s rs) =
           trace s @ map Invoked (ready_tasks (completed s) (remaining s))
                   @ map Recorded (ready_tasks (completed s) (remaining s))"
proof -
  note z = zip_ready [OF assms]
  show "remaining (after_batch s rs) =
           filter (\<lambda>(t, deps). t \<notin> set (ready_tasks (completed s) (remaining s))) (remaining s)"
    by (simp add: after_batch_def remaining_record_results z)
  show "keys (completed (after_batch s rs)) =
           keys (completed s) \<union> set (ready_tasks (completed s) (remaining s))"
    by (simp add: after_batch_def record_results_fields keys_fold_update z start_batch_def)
  show "counters (after_batch s rs) =
           (counters s)\<lparr>total_batches := total_batches (counters s) + 1,
              total_requests := total_requests (counters s)
                + int (length (ready_tasks (completed s) (remaining s)))\<rparr>"
    by (simp add: after_batch_def record_results_fields length_gather [OF assms] start_batch_def)
  have "map (Recorded \<circ> fst) (zip (ready_tasks (completed s) (remaining s)) rs)
        = map Recorded (ready_tasks (completed s) (remaining s))"
    using z(1) by (metis map_map)
  then show "trace (after_batch s rs) =
           trace s @ map Invoked (ready_tasks (completed s) (remaining s))
                   @ map Recorded (ready_tasks (completed s) (remaining s))"
    by (simp add: after_batch_def record_results_fields start_batch_def)
qed

lemma ready_iff:
  assumes "distinct (map fst rem)"
  shows "t \<in> set (ready_tasks done rem) \<longleftrightarrow>
           (\<exists>deps. map_of rem t = Some deps \<and> set deps \<subseteq> keys done)"
proof
  assume "t \<in> set (ready_tasks done rem)"
  then obtain deps where "(t, deps) \<in> set rem" "set deps \<subseteq> keys done"
    by (auto simp: ready_tasks_def list_all_iff subset_iff)
  with assms show "\<exists>deps. map_of rem t = Some deps \<and> set deps \<subseteq> keys done" by auto
next
  assume "\<exists>deps. map_of rem t = Some deps \<and> set deps \<subseteq> keys done"
  then obtain deps where "(t, deps) \<in> set rem" "set deps \<subseteq> keys done"
    by (auto dest: map_of_SomeD)
  then have "(t, deps) \<in> set (filter (\<lambda>(t, deps). list_all (\<lambda>d. d \<in> keys done) deps) rem)"
    by (auto simp: list_all_iff)
  then have "fst (t, deps) \<in> fst ` set (filter (\<lambda>(t, deps). list_all (\<lambda>d. d \<in> keys done) deps) rem)"
    by (rule imageI)
  then show "t \<in> set (ready_tasks done rem)"
    by (simp add: ready_tasks_def)
qed

lemma map_of_filter_keys:
  "map_of (filter (\<lambda>(t, deps). t \<notin> A) g) t = (if t \<in> A then None else map_of g t)"
  by (induction g) auto

lemma keys_filter_keys: "keys (filter (\<lambda>(t, deps). t \<notin> A) g) = keys g - A"
  by (induction g) (auto simp: keys_def)

lemma wf_run_after_batch:
  assumes "wf_run s" "gather delay f (ready_tasks (completed s) (remaining s)) = Inr rs"
  shows "wf_run (after_batch s rs)"
proof -
  note fields = after_batch_fields(1,2) [OF assms(2)]
  from assms(1) have "distinct (map fst (remaining (after_batch s rs)))"
    by (simp add: wf_run_def fields distinct_map_filter)
  moreover from assms(1) have "keys (completed (after_batch s rs)) \<inter> keys (remaining (after_batch s rs)) = {}"
    unfolding wf_run_def fields keys_filter_keys by blast
  ultimately show ?thesis by (simp add: wf_run_def)
qed

lemma closed_run_after_batch:
  assumes "closed_run s" "gather delay f (ready_tasks (completed s) (remaining s)) = Inr rs"
  shows "closed_run (after_batch s rs)"
proof -
  note fields = after_batch_fields(1,2) [OF assms(2)]
  let ?ready = "set (ready_tasks (completed s) (remaining s))"
  have u: "keys (completed s) \<union> ?ready \<union> (keys (remaining s) - ?ready)
           = keys (completed s) \<union> keys (remaining s)"
    using set_ready_tasks [of "completed s" "remaining s"] by blast
  show ?thesis
    unfolding closed_run_def fields keys_filter_keys u
    using assms(1) by (auto simp: closed_run_def)
qed

subsection \<open>The order of invocations and recordings\<close>

lemma invoked_prefix:
  assumes "\<forall>t \<in> set ts. \<exists>deps. map_of g t = Some deps \<and> set deps \<subseteq> D"
  shows "deps_recorded_before g D (map Invoked ts @ es) = deps_recorded_before g D es"
  using assms by (induction ts) auto

lemma recorded_prefix:
  "deps_recorded_before g D (map Recorded ts @ es) = deps_recorded_before g (D \<union> set ts) es"
  by (induction ts arbitrary: D) simp_all

lemma deps_recorded_mono:
  assumes "\<And>t deps. map_of g' t = Some deps \<Longrightarrow> map_of g t = Some deps"
    and "deps_recorded_before g' D es"
  shows "deps_recorded_before g D es"
  using assms(2)
proof (induction es arbitrary: D)
  case Nil
  show ?case by simp
next
  case (Cons e es)
  show ?case
  proof (cases e)
    case (Recorded t)
    with Cons show ?thesis by simp
  next
    case (Invoked t)
    with Cons.prems obtain deps where d: "map_of g' t = Some deps" "set deps \<subseteq> D"
      and rest: "deps_recorded_before g' D es"
      by (auto split: option.splits)
    from assms(1) [OF d(1)] d(2) Cons.IH [OF rest] Invoked show ?thesis by simp
  qed
qed

lemma execute_loop_trace:
  "wf_run s \<longrightarrow>
     (\<exists>tr. snd (snd (execute_loop delay f s)) = trace s @ tr
          \<and> deps_recorded_before (remaining s) (keys (completed s)) tr)"
proof (induction delay f s rule: execute_loop_induct)
  case (loop delay f s)
  let ?R = "remaining s" and ?D = "keys (completed s)"
  let ?ready = "ready_tasks (completed s) (remaining s)"
  show ?case
  proof
    assume wf: "wf_run s"
    then have dist: "distinct (map fst ?R)" by (simp add: wf_run_def)
    have rdy: "\<forall>t \<in> set ?ready. \<exists>deps. map_of ?R t = Some deps \<and> set deps \<subseteq> ?D"
      using ready_iff [OF dist] by blast
    show "\<exists>tr. snd (snd (execute_loop delay f s)) = trace s @ tr \<and> deps_recorded_before ?R ?D tr"
    proof (cases "?R = []")
      case True
      then show ?thesis by (simp add: execute_loop_done)
    next
      case ne: False
      show ?thesis
      proof (cases "?ready = []")
        case True
        with ne show ?thesis by (simp add: execute_loop_stuck)
      next
        case rne: False
        show ?thesis
        proof (cases "gather delay f ?ready")
          case (Inl e)
          have "deps_recorded_before ?R ?D (map Invoked ?ready)"
            using invoked_prefix [OF rdy, of "[]"] by simp
          then show ?thesis
            by (simp add: execute_loop_fail [OF ne rne Inl] start_batch_def)
        next
          case (Inr rs)
          note fields = after_batch_fields [OF Inr]
          from loop [OF ne rne Inr] wf_run_after_batch [OF wf Inr]
          obtain tr where tr: "snd (snd (execute_loop delay f (after_batch s rs))) = trace (after_batch s rs) @ tr"
            and ok: "deps_recorded_before (remaining (after_batch s rs)) (keys (completed (after_batch s rs))) tr"
            by blast
          have sub: "\<And>t deps. map_of (remaining (after_batch s rs)) t = Some deps \<Longrightarrow> map_of ?R t = Some deps"
            by (simp add: fields(1) map_of_filter_keys split: if_splits)
          from deps_recorded_mono [OF sub ok]
          have "deps_recorded_before ?R (?D \<union> set ?ready) tr" by (simp add: fields(2))
          then have "deps_recorded_before ?R ?D (map Invoked ?ready @ map Recorded ?ready @ tr)"
            by (simp add: invoked_prefix [OF rdy] recorded_prefix)
          then show ?thesis
            by (simp add: execute_loop_step [OF ne rne Inr] tr fields(4))
        qed
      qed
    qed
  qed
qed

subsection \<open>Dependency chains\<close>

lemma chain_hd: "chain g (t # ts) \<Longrightarrow> t \<in> keys g"
  by (cases ts) auto

lemma chain_Cons_iff:
  "chain g (d # t # ts) \<longleftrightarrow>
     d \<in> keys g \<and> (\<exists>deps. map_of g t = Some deps \<and> d \<in> set deps) \<and> chain g (t # ts)"
  by (auto split: option.splits)

declare chain.simps(3) [simp del]

lemma longest_chain_empty: "longest_chain [] 0"
proof -
  have "ts = []" if "chain [] ts" for ts
    using that chain_hd [of "[]"] by (cases ts) (auto simp: keys_def)
  then show ?thesis by (auto simp: longest_chain_def intro: exI [of _ "[]"])
qed

lemma longest_chain_peel:
  assumes dist: "distinct (map fst R)" and disj: "D \<inter> keys R = {}"
    and closed: "\<forall>(t, deps) \<in> set R. set deps \<subseteq> D \<union> keys R"
    and A: "\<And>t. t \<in> A \<longleftrightarrow> (\<exists>deps. map_of R t = Some deps \<and> set deps \<subseteq> D)"
    and ne: "A \<noteq> {}"
    and lc: "longest_chain (filter (\<lambda>(t, deps). t \<notin> A) R) n"
  shows "longest_chain R (Suc n)"
proof -
  let ?R' = "filter (\<lambda>(t, deps). t \<notin> A) R"
  have look: "\<And>t. map_of ?R' t = (if t \<in> A then None else map_of R t)"
    by (rule map_of_filter_keys)
  have k': "keys ?R' = keys R - A" by (rule keys_filter_keys)
  have A_keys: "A \<subseteq> keys R"
    using A by (auto simp: in_keys_iff)
  have up: "chain R ts" if "chain ?R' ts" for ts
    using that
  proof (induction ts)
    case Nil
    show ?case by simp
  next
    case (Cons t ts)
    show ?case
    proof (cases ts)
      case Nil
      with Cons.prems show ?thesis by (simp add: k')
    next
      case (Cons u us)
      with Cons.prems obtain deps where t: "t \<in> keys ?R'" and u: "map_of ?R' u = Some deps" "t \<in> set deps"
        and tl: "chain ?R' ts"
        by (auto simp: chain_Cons_iff)
      from u have "map_of R u = Some deps" by (simp add: look split: if_splits)
      with t u(2) Cons.IH [OF tl] Cons show ?thesis
        by (simp only: chain_Cons_iff k') blast
    qed
  qed
  have not_ready: "t \<in> keys ?R'"
    if "p \<in> keys R" "map_of R t = Some deps" "p \<in> set deps" for p t deps
  proof -
    from that(1) disj have "p \<notin> D" by auto
    with that(2,3) A have "t \<notin> A" by auto
    moreover from that(2) have "t \<in> keys R"
      by (simp add: in_keys_iff)
    ultimately show ?thesis by (simp add: k')
  qed
  have down: "chain ?R' rest" if "chain R (p # rest)" for p rest
    using that
  proof (induction rest arbitrary: p)
    case Nil
    show ?case by simp
  next
    case (Cons t ts)
    from Cons.prems obtain deps where p: "p \<in> keys R" "map_of R t = Some deps" "p \<in> set deps"
      and tl: "chain R (t # ts)"
      by (auto simp: chain_Cons_iff)
    from not_ready [OF p] have t: "t \<in> keys ?R'" .
    show ?case
    proof (cases ts)
      case Nil
      with t show ?thesis by simp
    next
      case (Cons u us)
      from Cons.IH [OF tl] Cons have c: "chain ?R' (u # us)" by simp
      from chain_hd [OF c] have "u \<notin> A" by (simp add: k')
      moreover from tl Cons obtain deps' where "map_of R u = Some deps'" "t \<in> set deps'"
        by (auto simp: chain_Cons_iff)
      ultimately have "\<exists>deps. map_of ?R' u = Some deps \<and> t \<in> set deps" by (simp add: look)
      with t c Cons show ?thesis by (simp only: chain_Cons_iff)
    qed
  qed
  from lc obtain ts where ts: "chain ?R' ts" "length ts = n"
    and bound: "\<And>us. chain ?R' us \<Longrightarrow> length us \<le> n"
    by (auto simp: longest_chain_def)
  have "\<exists>us. chain R us \<and> length us = Suc n"
  proof (cases ts)
    case Nil
    from ne obtain t where "t \<in> A" by auto
    with A_keys have "chain R [t]" by auto
    with Nil ts(2) show ?thesis by (intro exI [of _ "[t]"]) simp
  next
    case (Cons t1 rest)
    from ts(1) Cons have "t1 \<in> keys ?R'" by (auto dest: chain_hd)
    then have t1: "t1 \<in> keys R" "t1 \<notin> A" by (simp_all add: k')
    then obtain deps where deps: "map_of R t1 = Some deps"
      by (auto simp: in_keys_iff)
    with t1(2) A obtain d where d: "d \<in> set deps" "d \<notin> D" by auto
    from deps have "(t1, deps) \<in> set R" by (rule map_of_SomeD)
    with closed d have "d \<in> keys R" by auto
    with deps d up [OF ts(1)] Cons have "chain R (d # ts)"
      by (simp add: chain_Cons_iff)
    with ts(2) show ?thesis by (intro exI [of _ "d # ts"]) simp
  qed
  moreover have "length us \<le> Suc n" if "chain R us" for us
  proof (cases us)
    case Nil
    then show ?thesis by simp
  next
    case (Cons p rest)
    with that down have "chain ?R' rest" by simp
    from bound [OF this] Cons show ?thesis by simp
  qed
  ultimately show ?thesis by (simp add: longest_chain_def)
qed

subsection \<open>Runs on acyclic DAGs and on DAGs that cannot finish\<close>

lemma dep_rel_iff: "(d, t) \<in> dep_rel g \<longleftrightarrow> (\<exists>deps. (t, deps) \<in> set g \<and> d \<in> set deps)"
  by (auto simp: dep_rel_def)

lemma dep_rel_filter: "dep_rel (filter P g) \<subseteq> dep_rel g"
  by (auto simp: dep_rel_iff)

lemma finite_dep_rel: "finite (dep_rel g)"
  unfolding dep_rel_def by (rule finite_set)

lemma gather_Inl:
  assumes "gather delay f ts = Inl e"
  shows "\<exists>t \<in> set ts. f t = Inl e"
proof -
  from assms obtain t later where s: "sort_key delay (filter (\<lambda>t. isl (f t)) ts) = t # later"
    and e: "e = projl (f t)"
    by (auto simp: gather_def split: list.splits)
  have "t \<in> set (sort_key delay (filter (\<lambda>t. isl (f t)) ts))" by (simp add: s)
  then have "t \<in> set ts" "isl (f t)" by simp_all
  with e show ?thesis by (auto simp: isl_def)
qed

lemma ready_exists:
  assumes wf: "wf_run s" and cl: "closed_run s" and ac: "acyclic (dep_rel (remaining s))"
    and ne: "remaining s \<noteq> []"
  shows "ready_tasks (completed s) (remaining s) \<noteq> []"
proof -
  let ?R = "remaining s" and ?D = "keys (completed s)"
  from wf have dist: "distinct (map fst ?R)" by (simp add: wf_run_def)
  have "wf (dep_rel ?R)" using finite_dep_rel ac by (rule finite_acyclic_wf)
  moreover from ne obtain t0 where "t0 \<in> keys ?R" by (cases ?R) (auto simp: keys_def)
  ultimately obtain z where z: "z \<in> keys ?R" and least: "\<And>y. (y, z) \<in> dep_rel ?R \<Longrightarrow> y \<notin> keys ?R"
    by (rule wfE_min) blast
  from z obtain deps where deps: "map_of ?R z = Some deps" by (auto simp: in_keys_iff)
  then have mem: "(z, deps) \<in> set ?R" by (rule map_of_SomeD)
  have "set deps \<subseteq> ?D"
  proof
    fix d assume d: "d \<in> set deps"
    with mem have "(d, z) \<in> dep_rel ?R" by (auto simp: dep_rel_iff)
    then have "d \<notin> keys ?R" by (rule least)
    moreover from cl mem d have "d \<in> ?D \<union> keys ?R" by (auto simp: closed_run_def)
    ultimately show "d \<in> ?D" by simp
  qed
  with deps have "z \<in> set (ready_tasks (completed s) ?R)" by (auto simp: ready_iff [OF dist])
  then show ?thesis by auto
qed

lemma length_after_batch:
  assumes wf: "wf_run s" and g: "gather delay f (ready_tasks (completed s) (remaining s)) = Inr rs"
  shows "length (ready_tasks (completed s) (remaining s)) + length (remaining (after_batch s rs))
         = length (remaining s)"
proof -
  let ?R = "remaining s" and ?D = "keys (completed s)"
  let ?P = "\<lambda>(t, deps). list_all (\<lambda>d. d \<in> ?D) deps"
  from wf have dist: "distinct (map fst ?R)" by (simp add: wf_run_def)
  have "filter (\<lambda>(t, deps). t \<notin> set (ready_tasks (completed s) ?R)) ?R = filter (\<lambda>x. \<not> ?P x) ?R"
  proof (rule filter_cong [OF refl])
    fix x assume x: "x \<in> set ?R"
    obtain t deps where td: "x = (t, deps)" by (cases x)
    with x dist have "map_of ?R t = Some deps" by simp
    then show "(case x of (t, deps) \<Rightarrow> t \<notin> set (ready_tasks (completed s) ?R)) = (\<not> ?P x)"
      by (auto simp add: td ready_iff [OF dist] list_all_iff subset_iff)
  qed
  then have "length (remaining (after_batch s rs)) = length (filter (\<lambda>x. \<not> ?P x) ?R)"
    by (simp add: after_batch_fields(1) [OF g])
  moreover have "length (ready_tasks (completed s) ?R) = length (filter ?P ?R)"
    by (simp add: ready_tasks_def)
  ultimately show ?thesis by (simp add: sum_length_filter_compl)
qed

lemma execute_loop_acyclic:
  "wf_run s \<and> closed_run s \<and> acyclic (dep_rel (remaining s)) \<longrightarrow>
     (\<exists>t e. t \<in> keys (remaining s) \<and> f t = Inl e \<and> fst (execute_loop delay f s) = Inl e)
   \<or> (\<exists>res n. fst (execute_loop delay f s) = Inr res
          \<and> fst (snd (execute_loop delay f s)) =
              \<lparr>total_requests = total_requests (counters s) + int (length (remaining s)),
               total_batches = total_batches (counters s) + int n\<rparr>
          \<and> longest_chain (remaining s) n
          \<and> keys res = keys (completed s) \<union> keys (remaining s))"
proof (induction delay f s rule: execute_loop_induct)
  case (loop delay f s)
  let ?R = "remaining s" and ?D = "keys (completed s)"
  let ?ready = "ready_tasks (completed s) (remaining s)"
  show ?case
  proof
    assume a: "wf_run s \<and> closed_run s \<and> acyclic (dep_rel ?R)"
    then have wf: "wf_run s" and cl: "closed_run s" and ac: "acyclic (dep_rel ?R)" by auto
    from wf have dist: "distinct (map fst ?R)" and disj: "?D \<inter> keys ?R = {}"
      by (auto simp: wf_run_def)
    show "(\<exists>t e. t \<in> keys ?R \<and> f t = Inl e \<and> fst (execute_loop delay f s) = Inl e)
        \<or> (\<exists>res n. fst (execute_loop delay f s) = Inr res
          \<and> fst (snd (execute_loop delay f s)) =
              \<lparr>total_requests = total_requests (counters s) + int (length ?R),
               total_batches = total_batches (counters s) + int n\<rparr>
          \<and> longest_chain ?R n \<and> keys res = ?D \<union> keys ?R)"
    proof (cases "?R = []")
      case True
      then have "fst (execute_loop delay f s) = Inr (completed s)"
        "fst (snd (execute_loop delay f s)) =
              \<lparr>total_requests = total_requests (counters s) + int (length ?R),
               total_batches = total_batches (counters s) + int 0\<rparr>"
        "longest_chain ?R 0" "keys (completed s) = ?D \<union> keys ?R"
        by (simp_all add: execute_loop_done longest_chain_empty keys_def)
      then show ?thesis by blast
    next
      case ne: False
      from ready_exists [OF wf cl ac ne] have rne: "?ready \<noteq> []" .
      show ?thesis
      proof (cases "gather delay f ?ready")
        case (Inl e)
        from gather_Inl [OF Inl] set_ready_tasks [of "completed s" ?R]
        obtain t where "t \<in> keys ?R" "f t = Inl e" by auto
        moreover have "fst (execute_loop delay f s) = Inl e"
          by (simp add: execute_loop_fail [OF ne rne Inl])
        ultimately show ?thesis by blast
      next
        case (Inr rs)
        let ?s' = "after_batch s rs"
        note fields = after_batch_fields [OF Inr]
        have step: "execute_loop delay f s = execute_loop delay f ?s'" by (rule execute_loop_step [OF ne rne Inr])
        have ac': "acyclic (dep_rel (remaining ?s'))"
          unfolding fields(1) using dep_rel_filter ac by (rule acyclic_subset [rotated])
        have k': "keys (remaining ?s') = keys ?R - set ?ready"
          by (simp add: fields(1) keys_filter_keys)
        from loop [OF ne rne Inr] wf_run_after_batch [OF wf Inr] closed_run_after_batch [OF cl Inr] ac'
        consider (failed) t e where "t \<in> keys (remaining ?s')" "f t = Inl e" "fst (execute_loop delay f ?s') = Inl e"
          | (finished) res n where "fst (execute_loop delay f ?s') = Inr res"
              "fst (snd (execute_loop delay f ?s')) =
                \<lparr>total_requests = total_requests (counters ?s') + int (length (remaining ?s')),
                 total_batches = total_batches (counters ?s') + int n\<rparr>"
              "longest_chain (remaining ?s') n"
              "keys res = keys (completed ?s') \<union> keys (remaining ?s')"
          by blast
        then show ?thesis
        proof cases
          case failed
          from failed(1) have "t \<in> keys ?R" by (simp add: k')
          with failed(2,3) show ?thesis by (auto simp: step)
        next
          case finished
          have A: "\<And>t. t \<in> set ?ready \<longleftrightarrow> (\<exists>deps. map_of ?R t = Some deps \<and> set deps \<subseteq> ?D)"
            by (rule ready_iff [OF dist])
          from cl have closed: "\<forall>(t, deps) \<in> set ?R. set deps \<subseteq> ?D \<union> keys ?R"
            by (simp add: closed_run_def)
          from rne have "set ?ready \<noteq> {}" by simp
          from longest_chain_peel [OF dist disj closed A this] finished(3)
          have lc: "longest_chain ?R (Suc n)" by (simp add: fields(1))
          from length_after_batch [OF wf Inr]
          have len: "int (length ?ready) + int (length (remaining ?s')) = int (length ?R)"
            by linarith
          have cnt: "fst (snd (execute_loop delay f s)) =
              \<lparr>total_requests = total_requests (counters s) + int (length ?R),
               total_batches = total_batches (counters s) + int (Suc n)\<rparr>"
            using len by (simp add: step finished(2) fields(3))
          have ks: "keys res = ?D \<union> keys ?R"
            using set_ready_tasks [of "completed s" ?R] by (auto simp: finished(4) fields(2) k')
          have "fst (execute_loop delay f s) = Inr res" by (simp add: step finished(1))
          with cnt lc ks show ?thesis by blast
        qed
      qed
    qed
  qed
qed

lemma execute_loop_stuck_set:
  "wf_run s \<and> S \<noteq> {} \<and> S \<subseteq> keys (remaining s)
     \<and> (\<forall>t \<in> S. \<exists>deps d. map_of (remaining s) t = Some deps \<and> d \<in> set deps
           \<and> (d \<in> S \<or> d \<notin> keys (completed s) \<union> keys (remaining s))) \<longrightarrow>
   (\<exists>e. fst (execute_loop delay f s) = Inl e
      \<and> ((\<forall>t \<in> keys (remaining s). \<exists>r. f t = Inr r) \<longrightarrow> e = cycle_error))"
proof (induction delay f s rule: execute_loop_induct)
  case (loop delay f s)
  let ?R = "remaining s" and ?D = "keys (completed s)"
  let ?ready = "ready_tasks (completed s) (remaining s)"
  show ?case
  proof
    assume a: "wf_run s \<and> S \<noteq> {} \<and> S \<subseteq> keys ?R
     \<and> (\<forall>t \<in> S. \<exists>deps d. map_of ?R t = Some deps \<and> d \<in> set deps \<and> (d \<in> S \<or> d \<notin> ?D \<union> keys ?R))"
    then have wf: "wf_run s" and Sne: "S \<noteq> {}" and Ssub: "S \<subseteq> keys ?R"
      and bad: "\<forall>t \<in> S. \<exists>deps d. map_of ?R t = Some deps \<and> d \<in> set deps \<and> (d \<in> S \<or> d \<notin> ?D \<union> keys ?R)"
      by auto
    from wf have dist: "distinct (map fst ?R)" and disj: "?D \<inter> keys ?R = {}"
      by (auto simp: wf_run_def)
    from Sne Ssub have ne: "?R \<noteq> []" by (auto simp: keys_def)
    have S_not_ready: "t \<notin> set ?ready" if "t \<in> S" for t
    proof
      assume "t \<in> set ?ready"
      then obtain deps where deps: "map_of ?R t = Some deps" "set deps \<subseteq> ?D"
        by (auto simp: ready_iff [OF dist])
      with bad that obtain d where "d \<in> set deps" "d \<in> S \<or> d \<notin> ?D \<union> keys ?R" by fastforce
      with deps(2) Ssub disj show False by auto
    qed
    show "\<exists>e. fst (execute_loop delay f s) = Inl e
      \<and> ((\<forall>t \<in> keys ?R. \<exists>r. f t = Inr r) \<longrightarrow> e = cycle_error)"
    proof (cases "?ready = []")
      case True
      with ne show ?thesis by (simp add: execute_loop_stuck)
    next
      case rne: False
      show ?thesis
      proof (cases "gather delay f ?ready")
        case (Inl e)
        from gather_Inl [OF Inl] set_ready_tasks [of "completed s" ?R]
        obtain t where "t \<in> keys ?R" "f t = Inl e" by auto
        then have "\<not> (\<forall>t \<in> keys ?R. \<exists>r. f t = Inr r)" by force
        moreover have "fst (execute_loop delay f s) = Inl e"
          by (simp add: execute_loop_fail [OF ne rne Inl])
        ultimately show ?thesis by blast
      next
        case (Inr rs)
        let ?s' = "after_batch s rs"
        note fields = after_batch_fields [OF Inr]
        have step: "execute_loop delay f s = execute_loop delay f ?s'" by (rule execute_loop_step [OF ne rne Inr])
        have k': "keys (remaining ?s') = keys ?R - set ?ready"
          by (simp add: fields(1) keys_filter_keys)
        have u: "keys (completed ?s') \<union> keys (remaining ?s') = ?D \<union> keys ?R"
          using set_ready_tasks [of "completed s" ?R] by (auto simp: fields(2) k')
        have S': "S \<subseteq> keys (remaining ?s')" using Ssub S_not_ready by (auto simp: k')
        have bad': "\<forall>t \<in> S. \<exists>deps d. map_of (remaining ?s') t = Some deps \<and> d \<in> set deps
           \<and> (d \<in> S \<or> d \<notin> keys (completed ?s') \<union> keys (remaining ?s'))"
          unfolding u using bad S_not_ready by (simp add: fields(1) map_of_filter_keys)
        from loop [OF ne rne Inr] wf_run_after_batch [OF wf Inr] Sne S' bad'
        obtain e where e: "fst (execute_loop delay f ?s') = Inl e"
          "(\<forall>t \<in> keys (remaining ?s'). \<exists>r. f t = Inr r) \<longrightarrow> e = cycle_error"
          by blast
        from e(2) have "(\<forall>t \<in> keys ?R. \<exists>r. f t = Inr r) \<longrightarrow> e = cycle_error"
          by (auto simp: k')
        with e(1) show ?thesis by (simp add: step)
      qed
    qed
  qed
qed

subsection \<open>The claims on \<open>execute_dag\<close>\<close>

lemma dag_closed_iff: "dag_closed g \<longleftrightarrow> (\<forall>(t, deps) \<in> set g. set deps \<subseteq> keys g)"
  by (auto simp: dag_closed_def list_all_iff)

lemma succeeds_on_iff: "succeeds_on f g \<longleftrightarrow> (\<forall>t \<in> keys g. \<exists>r. f t = Inr r)"
  by (auto simp: succeeds_on_def list_all_iff keys_def split: sum.splits)

lemma keys_Nil: "keys [] = {}"
  by (simp add: keys_def)

lemma initial_run:
  assumes "distinct (map fst dag)"
  shows "wf_run \<lparr>completed = [], remaining = dag, counters = orch, trace = []\<rparr>"
  using assms by (simp add: wf_run_def keys_Nil)

lemma execute_dag_trace:
  assumes "distinct (map fst dag)"
  shows "deps_recorded_before dag {} (snd (snd (execute_dag orch dag delay f)))"
  using execute_loop_trace [of "\<lparr>completed = [], remaining = dag, counters = orch, trace = []\<rparr>" delay f,
      THEN mp, OF initial_run [OF assms, of orch]]
  by (auto simp: execute_dag_def keys_Nil)

lemma execute_dag_acyclic:
  assumes "distinct (map fst dag)" "dag_closed dag" "dag_acyclic dag"
  shows "(\<exists>t e. t \<in> keys dag \<and> f t = Inl e \<and> fst (execute_dag orch dag delay f) = Inl e)
       \<or> (\<exists>res n. fst (execute_dag orch dag delay f) = Inr res
            \<and> fst (snd (execute_dag orch dag delay f)) =
                \<lparr>total_requests = total_requests orch + int (length dag),
                 total_batches = total_batches orch + int n\<rparr>
            \<and> longest_chain dag n \<and> keys res = keys dag)"
proof -
  let ?s = "\<lparr>completed = [], remaining = dag, counters = orch, trace = []\<rparr> :: 'a dag_run"
  have "closed_run ?s" using assms(2) by (simp add: closed_run_def dag_closed_iff keys_Nil)
  moreover have "acyclic (dep_rel (remaining ?s))" using assms(3) by (simp add: dag_acyclic_def)
  ultimately have "wf_run ?s \<and> closed_run ?s \<and> acyclic (dep_rel (remaining ?s))"
    using initial_run [OF assms(1), of orch] by simp
  from execute_loop_acyclic [of ?s f delay, THEN mp, OF this] show ?thesis
    by (simp add: execute_dag_def keys_Nil)
qed

lemma execute_dag_success:
  assumes "distinct (map fst dag)" "dag_closed dag" "dag_acyclic dag" "succeeds_on f dag"
  shows "\<exists>res n. fst (execute_dag orch dag delay f) = Inr res
            \<and> fst (snd (execute_dag orch dag delay f)) =
                \<lparr>total_requests = total_requests orch + int (length dag),
                 total_batches = total_batches orch + int n\<rparr>
            \<and> longest_chain dag n \<and> keys res = keys dag"
proof -
  from assms(4) have "\<not> (\<exists>t e. t \<in> keys dag \<and> f t = Inl e \<and> fst (execute_dag orch dag delay f) = Inl e)"
    by (force simp: succeeds_on_iff)
  with execute_dag_acyclic [OF assms(1-3), of f orch delay] show ?thesis by blast
qed

lemma stuck_set_exists:
  assumes dist: "distinct (map fst dag)" and bad: "\<not> dag_closed dag \<or> \<not> dag_acyclic dag"
  shows "\<exists>S. S \<noteq> {} \<and> S \<subseteq> keys dag
           \<and> (\<forall>t \<in> S. \<exists>deps d. map_of dag t = Some deps \<and> d \<in> set deps \<and> (d \<in> S \<or> d \<notin> keys dag))"
proof (cases "dag_closed dag")
  case False
  then obtain t deps d where td: "(t, deps) \<in> set dag" "d \<in> set deps" "d \<notin> keys dag"
    by (auto simp: dag_closed_iff)
  from dist td(1) have "map_of dag t = Some deps" by simp
  with td have "\<forall>u \<in> {t}. \<exists>deps d. map_of dag u = Some deps \<and> d \<in> set deps \<and> (d \<in> {t} \<or> d \<notin> keys dag)"
    by blast
  moreover from td(1) have "{t} \<subseteq> keys dag" by (auto simp: keys_def intro: rev_image_eqI)
  ultimately show ?thesis by (intro exI [of _ "{t}"]) simp
next
  case True
  with bad have "\<not> acyclic (dep_rel dag)" by (simp add: dag_acyclic_def)
  then obtain x where x: "(x, x) \<in> (dep_rel dag)\<^sup>+" by (auto simp: acyclic_def)
  let ?r = "dep_rel dag"
  let ?S = "{y. (x, y) \<in> ?r\<^sup>* \<and> (y, x) \<in> ?r\<^sup>*}"
  have step: "\<exists>deps d. map_of dag y = Some deps \<and> d \<in> set deps \<and> d \<in> ?S" if y: "y \<in> ?S" for y
  proof -
    from y x have "(x, y) \<in> ?r\<^sup>+" by (auto dest: rtranclD)
    then obtain z where z: "(x, z) \<in> ?r\<^sup>*" "(z, y) \<in> ?r" by (auto dest: tranclD2)
    from z(2) y have "(z, x) \<in> ?r\<^sup>*" by auto
    with z(1) have "z \<in> ?S" by simp
    moreover from z(2) obtain deps where "(y, deps) \<in> set dag" "z \<in> set deps"
      by (auto simp: dep_rel_iff)
    moreover from this dist have "map_of dag y = Some deps" by simp
    ultimately show ?thesis by blast
  qed
  have "?S \<noteq> {}" by auto
  moreover have "?S \<subseteq> keys dag"
  proof
    fix y assume "y \<in> ?S"
    from step [OF this] show "y \<in> keys dag" by (auto simp: in_keys_iff)
  qed
  moreover have "\<forall>t \<in> ?S. \<exists>deps d. map_of dag t = Some deps \<and> d \<in> set deps \<and> (d \<in> ?S \<or> d \<notin> keys dag)"
    using step by blast
  ultimately show ?thesis by (intro exI [of _ ?S]) blast
qed

lemma execute_dag_stuck:
  assumes dist: "distinct (map fst dag)" and bad: "\<not> dag_closed dag \<or> \<not> dag_acyclic dag"
  shows "\<exists>e. fst (execute_dag orch dag delay f) = Inl e \<and> (succeeds_on f dag \<longrightarrow> e = cycle_error)"
proof -
  let ?s = "\<lparr>completed = [], remaining = dag, counters = orch, trace = []\<rparr> :: 'a dag_run"
  from stuck_set_exists [OF assms] obtain S where S: "S \<noteq> {}" "S \<subseteq> keys dag"
    "\<forall>t \<in> S. \<exists>deps d. map_of dag t = Some deps \<and> d \<in> set deps \<and> (d \<in> S \<or> d \<notin> keys dag)"
    by blast
  have "wf_run ?s \<and> S \<noteq> {} \<and> S \<subseteq> keys (remaining ?s)
     \<and> (\<forall>t \<in> S. \<exists>deps d. map_of (remaining ?s) t = Some deps \<and> d \<in> set deps
           \<and> (d \<in> S \<or> d \<notin> keys (completed ?s) \<union> keys (remaining ?s)))"
    using S initial_run [OF dist, of orch] by (simp add: keys_Nil)
  from execute_loop_stuck_set [of ?s S delay f, THEN mp, OF this] show ?thesis
    by (simp add: execute_dag_def succeeds_on_iff)
qed

lemma gather_Inr:
  assumes "gather delay f ts = Inr rs"
  shows "rs = map (\<lambda>t. projr (f t)) ts" and "\<forall>t \<in> set ts. f t = Inr (projr (f t))"
proof -
  from assms have none: "sort_key delay (filter (\<lambda>t. isl (f t)) ts) = []"
    and rs: "rs = map (\<lambda>t. projr (f t)) ts"
    by (auto simp: gather_def split: list.splits)
  from rs show "rs = map (\<lambda>t. projr (f t)) ts" .
  from none have "filter (\<lambda>t. isl (f t)) ts = []"
    by (metis length_sort length_0_conv)
  then have "\<forall>t \<in> set ts. \<not> isl (f t)" by (simp add: filter_empty_conv)
  then show "\<forall>t \<in> set ts. f t = Inr (projr (f t))"
    by (metis sum.collapse(2))
qed

lemma gather_pairs:
  assumes "gather delay f ts = Inr rs"
  shows "\<forall>(t, r) \<in> set (zip ts rs). f t = Inr r"
proof -
  from gather_Inr [OF assms] have "zip ts rs = map (\<lambda>t. (t, projr (f t))) ts"
    and ok: "\<forall>t \<in> set ts. f t = Inr (projr (f t))"
    by (simp_all add: zip_map2 zip_same_conv_map)
  then show ?thesis by auto
qed

lemma set_fold_update:
  "set (fold (\<lambda>(t, r). AList.update t r) ps d) \<subseteq> set d \<union> set ps"
proof (induction ps arbitrary: d)
  case Nil
  show ?case by simp
next
  case (Cons p ps)
  obtain t r where p: "p = (t, r)" by (cases p)
  from Cons.IH [of "AList.update t r d"] set_update_subset [of t r d]
  show ?case by (auto simp: p)
qed

lemma execute_loop_results:
  "(\<forall>(t, r) \<in> set (completed s). f t = Inr r) \<longrightarrow>
     (\<forall>res. fst (execute_loop delay f s) = Inr res \<longrightarrow> (\<forall>(t, r) \<in> set res. f t = Inr r))"
proof (induction delay f s rule: execute_loop_induct)
  case (loop delay f s)
  let ?ready = "ready_tasks (completed s) (remaining s)"
  show ?case
  proof (intro impI allI)
    fix res
    assume ok: "\<forall>(t, r) \<in> set (completed s). f t = Inr r"
      and res: "fst (execute_loop delay f s) = Inr res"
    show "\<forall>(t, r) \<in> set res. f t = Inr r"
    proof (cases "remaining s = []")
      case True
      with res ok show ?thesis by (simp add: execute_loop_done)
    next
      case ne: False
      show ?thesis
      proof (cases "?ready = []")
        case True
        with ne res show ?thesis by (simp add: execute_loop_stuck)
      next
        case rne: False
        show ?thesis
        proof (cases "gather delay f ?ready")
          case (Inl e)
          with res show ?thesis by (simp add: execute_loop_fail [OF ne rne Inl])
        next
          case (Inr rs)
          have "set (completed (after_batch s rs)) \<subseteq> set (completed s) \<union> set (zip ?ready rs)"
            using set_fold_update [of "zip ?ready rs" "completed s"]
            by (simp add: after_batch_def record_results_fields start_batch_def)
          with ok gather_pairs [OF Inr]
          have "\<forall>(t, r) \<in> set (completed (after_batch s rs)). f t = Inr r" by blast
          with loop [OF ne rne Inr] res show ?thesis
            by (simp add: execute_loop_step [OF ne rne Inr])
        qed
      qed
    qed
  qed
qed

lemma execute_dag_results:
  "fst (execute_dag orch dag delay f) = Inr res \<Longrightarrow> \<forall>(t, r) \<in> set res. f t = Inr r"
  using execute_loop_results [of "\<lparr>completed = [], remaining = dag, counters = orch, trace = []\<rparr>" f delay]
  by (simp add: execute_dag_def)

subsection \<open>Which exception leaves the loop\<close>

lemma sub_run_initial:
  assumes "distinct (map fst dag)"
  shows "sub_run dag \<lparr>completed = [], remaining = dag, counters = orch, trace = []\<rparr>"
  using initial_run [OF assms, of orch] by (simp add: sub_run_def keys_Nil)

lemma ready_runnable:
  assumes sr: "sub_run g s" and t: "t \<in> set (ready_tasks (completed s) (remaining s))"
  shows "runnable g t"
proof -
  from sr have dist: "distinct (map fst (remaining s))" by (simp add: sub_run_def wf_run_def)
  from t obtain deps where d: "map_of (remaining s) t = Some deps" "set deps \<subseteq> keys (completed s)"
    by (auto simp: ready_iff [OF dist])
  with sr have "map_of g t = Some deps" "\<forall>d \<in> set deps. runnable g d"
    by (auto simp: sub_run_def)
  then show ?thesis by (rule runnable.intros)
qed

lemma sub_run_after_batch:
  assumes sr: "sub_run g s" and g: "gather delay f (ready_tasks (completed s) (remaining s)) = Inr rs"
  shows "sub_run g (after_batch s rs)"
proof -
  note fields = after_batch_fields(1,2) [OF g]
  let ?ready = "set (ready_tasks (completed s) (remaining s))"
  from sr have wf: "wf_run s" by (simp add: sub_run_def)
  have k': "keys (remaining (after_batch s rs)) = keys (remaining s) - ?ready"
    by (simp add: fields(1) keys_filter_keys)
  have "wf_run (after_batch s rs)" by (rule wf_run_after_batch [OF wf g])
  moreover have "\<forall>t deps. map_of (remaining (after_batch s rs)) t = Some deps \<longrightarrow> map_of g t = Some deps"
    using sr by (simp add: sub_run_def fields(1) map_of_filter_keys split: if_splits)
  moreover have "keys g \<subseteq> keys (completed (after_batch s rs)) \<union> keys (remaining (after_batch s rs))"
    using sr unfolding sub_run_def fields(2) k' by blast
  moreover have "\<forall>t \<in> keys (completed (after_batch s rs)). runnable g t"
    using sr ready_runnable [OF sr] unfolding sub_run_def fields(2) by blast
  ultimately show ?thesis by (simp add: sub_run_def)
qed

lemma runnable_ready:
  assumes sr: "sub_run g s" and r: "runnable g t"
  shows "t \<in> keys (remaining s) \<longrightarrow> ready_tasks (completed s) (remaining s) \<noteq> []"
  using r
proof (induction rule: runnable.induct)
  case (1 t deps)
  from sr have dist: "distinct (map fst (remaining s))" by (simp add: sub_run_def wf_run_def)
  show ?case
  proof
    assume t: "t \<in> keys (remaining s)"
    then obtain deps' where "map_of (remaining s) t = Some deps'" by (auto simp: in_keys_iff)
    moreover from this sr have "map_of g t = Some deps'" by (simp add: sub_run_def)
    ultimately have m: "map_of (remaining s) t = Some deps" using "1.hyps" by simp
    show "ready_tasks (completed s) (remaining s) \<noteq> []"
    proof (cases "set deps \<subseteq> keys (completed s)")
      case True
      with m have "t \<in> set (ready_tasks (completed s) (remaining s))"
        by (auto simp: ready_iff [OF dist])
      then show ?thesis by auto
    next
      case False
      then obtain d where d: "d \<in> set deps" "d \<notin> keys (completed s)" by auto
      from d(1) "1.IH" have rd: "runnable g d"
        and ih: "d \<in> keys (remaining s) \<longrightarrow> ready_tasks (completed s) (remaining s) \<noteq> []"
        by auto
      from rd have "d \<in> keys g" by (cases rule: runnable.cases) (auto simp: in_keys_iff)
      with sr d(2) have "d \<in> keys (remaining s)" by (auto simp: sub_run_def)
      with ih show ?thesis by simp
    qed
  qed
qed

lemma execute_loop_propagates:
  "sub_run g s \<longrightarrow>
     (\<forall>e. fst (execute_loop delay f s) = Inl e \<longrightarrow>
          e = cycle_error \<or> (\<exists>t. runnable g t \<and> f t = Inl e))
   \<and> ((\<exists>t \<in> keys (remaining s). runnable g t \<and> isl (f t)) \<longrightarrow>
          (\<exists>e t. fst (execute_loop delay f s) = Inl e \<and> runnable g t \<and> f t = Inl e))"
proof (induction delay f s rule: execute_loop_induct)
  case (loop delay f s)
  let ?R = "remaining s" and ?D = "keys (completed s)"
  let ?ready = "ready_tasks (completed s) (remaining s)"
  show ?case
  proof
    assume sr: "sub_run g s"
    show "(\<forall>e. fst (execute_loop delay f s) = Inl e \<longrightarrow>
              e = cycle_error \<or> (\<exists>t. runnable g t \<and> f t = Inl e))
        \<and> ((\<exists>t \<in> keys ?R. runnable g t \<and> isl (f t)) \<longrightarrow>
              (\<exists>e t. fst (execute_loop delay f s) = Inl e \<and> runnable g t \<and> f t = Inl e))"
    proof (cases "?R = []")
      case True
      then show ?thesis by (simp add: execute_loop_done keys_Nil)
    next
      case ne: False
      show ?thesis
      proof (cases "?ready = []")
        case True
        with runnable_ready [OF sr] have "\<not> (\<exists>t \<in> keys ?R. runnable g t \<and> isl (f t))" by blast
        moreover from ne True have "fst (execute_loop delay f s) = Inl cycle_error"
          by (simp add: execute_loop_stuck)
        ultimately show ?thesis by auto
      next
        case rne: False
        show ?thesis
        proof (cases "gather delay f ?ready")
          case (Inl e)
          from gather_Inl [OF Inl] ready_runnable [OF sr]
          obtain t where "runnable g t" "f t = Inl e" by blast
          moreover have "fst (execute_loop delay f s) = Inl e"
            by (simp add: execute_loop_fail [OF ne rne Inl])
          ultimately show ?thesis by auto
        next
          case (Inr rs)
          let ?s' = "after_batch s rs"
          have step: "execute_loop delay f s = execute_loop delay f ?s'"
            by (rule execute_loop_step [OF ne rne Inr])
          have k': "keys (remaining ?s') = keys ?R - set ?ready"
            by (simp add: after_batch_fields(1) [OF Inr] keys_filter_keys)
          from gather_Inr(2) [OF Inr] have ok: "\<forall>t \<in> set ?ready. \<not> isl (f t)"
            by (metis sum.disc(2))
          from loop [OF ne rne Inr] sub_run_after_batch [OF sr Inr]
          have ih1: "\<forall>e. fst (execute_loop delay f ?s') = Inl e \<longrightarrow>
                       e = cycle_error \<or> (\<exists>t. runnable g t \<and> f t = Inl e)"
            and ih2: "(\<exists>t \<in> keys (remaining ?s'). runnable g t \<and> isl (f t)) \<longrightarrow>
                       (\<exists>e t. fst (execute_loop delay f ?s') = Inl e \<and> runnable g t \<and> f t = Inl e)"
            by blast+
          have "(\<exists>t \<in> keys ?R. runnable g t \<and> isl (f t)) \<longrightarrow>
                (\<exists>t \<in> keys (remaining ?s'). runnable g t \<and> isl (f t))"
            using ok unfolding k' by blast
          with ih1 ih2 show ?thesis unfolding step by blast
        qed
      qed
    qed
  qed
qed

lemma runnable_is_task: "runnable g t \<Longrightarrow> t \<in> keys g"
  by (cases rule: runnable.cases) (auto simp: in_keys_iff)

lemma execute_dag_propagates:
  assumes "distinct (map fst dag)"
  shows "fst (execute_dag orch dag delay f) = Inl e
           \<Longrightarrow> e = cycle_error \<or> (\<exists>t. runnable dag t \<and> f t = Inl e)"
    and "runnable dag t \<Longrightarrow> isl (f t)
           \<Longrightarrow> \<exists>e t. fst (execute_dag orch dag delay f) = Inl e \<and> runnable dag t \<and> f t = Inl e"
proof -
  let ?s = "\<lparr>completed = [], remaining = dag, counters = orch, trace = []\<rparr> :: 'a dag_run"
  note p = execute_loop_propagates [of dag ?s delay f, THEN mp, OF sub_run_initial [OF assms, of orch]]
  from p show "fst (execute_dag orch dag delay f) = Inl e
           \<Longrightarrow> e = cycle_error \<or> (\<exists>t. runnable dag t \<and> f t = Inl e)"
    by (simp add: execute_dag_def)
  assume "runnable dag t" "isl (f t)"
  with runnable_is_task [of dag t] have "\<exists>t \<in> keys (remaining ?s). runnable dag t \<and> isl (f t)"
    by auto
  with p show "\<exists>e t. fst (execute_dag orch dag delay f) = Inl e \<and> runnable dag t \<and> f t = Inl e"
    by (simp add: execute_dag_def)
qed

text \<open>
  C1, as amended. For every DAG and every callback, a task's callback is invoked only
  after the results of all its dependencies have been recorded. For every acyclic DAG
  whose dependencies are all tasks of it, and every callback that raises on none of its
  tasks, \<open>execute_dag\<close> returns the callback's result for every task, \<open>total_requests\<close>
  grows by the number of tasks and \<open>total_batches\<close> by the depth of the DAG, the length
  of its longest dependency chain.
\<close>

theorem execute_dag_waves:
  assumes "distinct (map fst dag)"
  shows "deps_recorded_before dag {} (snd (snd (execute_dag orch dag delay f)))
       \<and> (dag_closed dag \<and> dag_acyclic dag \<and> succeeds_on f dag \<longrightarrow>
           (\<exists>res n. fst (execute_dag orch dag delay f) = Inr res
              \<and> fst (snd (execute_dag orch dag delay f)) =
                  \<lparr>total_requests = total_requests orch + int (length dag),
                   total_batches = total_batches orch + int n\<rparr>
              \<and> longest_chain dag n \<and> keys res = keys dag
              \<and> (\<forall>(t, r) \<in> set res. f t = Inr r)))"
proof (intro conjI impI)
  show "deps_recorded_before dag {} (snd (snd (execute_dag orch dag delay f)))"
    by (rule execute_dag_trace [OF assms])
next
  assume "dag_closed dag \<and> dag_acyclic dag \<and> succeeds_on f dag"
  with execute_dag_success [OF assms, of f orch delay]
  obtain res n where r: "fst (execute_dag orch dag delay f) = Inr res"
    "fst (snd (execute_dag orch dag delay f)) =
       \<lparr>total_requests = total_requests orch + int (length dag),
        total_batches = total_batches orch + int n\<rparr>"
    "longest_chain dag n" "keys res = keys dag"
    by blast
  from execute_dag_results [OF r(1)] r
  show "\<exists>res n. fst (execute_dag orch dag delay f) = Inr res
              \<and> fst (snd (execute_dag orch dag delay f)) =
                  \<lparr>total_requests = total_requests orch + int (length dag),
                   total_batches = total_batches orch + int n\<rparr>
              \<and> longest_chain dag n \<and> keys res = keys dag
              \<and> (\<forall>(t, r) \<in> set res. f t = Inr r)"
    by blast
qed

text \<open>
  C2, as amended. For every DAG with a dependency cycle, or with a dependency that is not
  one of its tasks, \<open>execute_dag\<close> ends with an exception and never returns a mapping (the
  loop is a total function: it cannot run forever). That exception is
  \<^verbatim>\<open>RuntimeError("Cycle detected in task DAG")\<close> when the callback raises on none of the
  tasks that can run, whatever it would do on the others; otherwise it is an exception
  that the callback raised on one of the tasks that can run, propagated unchanged. On
  every DAG, an exception that leaves \<open>execute_dag\<close> is that \<^verbatim>\<open>RuntimeError\<close> or one the
  callback raised on a task that can run. The structural error is a plain
  \<^verbatim>\<open>RuntimeError\<close> with that message: on an acyclic DAG whose dependencies are all tasks,
  it leaves \<open>execute_dag\<close> only if the callback itself raised it.
\<close>

theorem execute_dag_structural_error:
  assumes "distinct (map fst dag)"
  shows "(\<not> dag_closed dag \<or> \<not> dag_acyclic dag \<longrightarrow>
            (\<exists>e. fst (execute_dag orch dag delay f) = Inl e
               \<and> (if \<forall>t. runnable dag t \<longrightarrow> (\<exists>r. f t = Inr r)
                  then e = cycle_error
                  else \<exists>t. runnable dag t \<and> f t = Inl e)))
       \<and> (\<forall>e. fst (execute_dag orch dag delay f) = Inl e \<longrightarrow>
              e = cycle_error \<or> (\<exists>t. runnable dag t \<and> f t = Inl e))
       \<and> (dag_closed dag \<and> dag_acyclic dag \<and> (\<forall>t \<in> keys dag. f t \<noteq> Inl cycle_error) \<longrightarrow>
            fst (execute_dag orch dag delay f) \<noteq> Inl cycle_error)"
proof (intro conjI impI allI)
  assume "\<not> dag_closed dag \<or> \<not> dag_acyclic dag"
  from execute_dag_stuck [OF assms this, of orch delay f]
  obtain e where e: "fst (execute_dag orch dag delay f) = Inl e" by blast
  show "\<exists>e. fst (execute_dag orch dag delay f) = Inl e
          \<and> (if \<forall>t. runnable dag t \<longrightarrow> (\<exists>r. f t = Inr r)
             then e = cycle_error
             else \<exists>t. runnable dag t \<and> f t = Inl e)"
  proof (cases "\<forall>t. runnable dag t \<longrightarrow> (\<exists>r. f t = Inr r)")
    case True
    with execute_dag_propagates(1) [OF assms e] have "e = cycle_error" by force
    with e True show ?thesis by simp
  next
    case False
    then obtain t where t: "runnable dag t" "isl (f t)"
      by (metis sum.collapse(2))
    from execute_dag_propagates(2) [where f = f and t = t and orch = orch and delay = delay, OF assms t] False
    show ?thesis by auto
  qed
next
  fix e assume "fst (execute_dag orch dag delay f) = Inl e"
  then show "e = cycle_error \<or> (\<exists>t. runnable dag t \<and> f t = Inl e)"
    by (rule execute_dag_propagates(1) [OF assms])
next
  assume a: "dag_closed dag \<and> dag_acyclic dag \<and> (\<forall>t \<in> keys dag. f t \<noteq> Inl cycle_error)"
  with execute_dag_acyclic [OF assms, of f orch delay]
  show "fst (execute_dag orch dag delay f) \<noteq> Inl cycle_error" by auto
qed

lemma dag_acyclic_by_rank:
  fixes rank :: "string \<Rightarrow> nat"
  assumes "\<And>t deps d. (t, deps) \<in> set g \<Longrightarrow> d \<in> set deps \<Longrightarrow> rank d < rank t"
  shows "dag_acyclic g"
proof -
  have "acyclic ((dep_rel g)\<inverse>)"
    by (rule acyclicI_order [where f = rank]) (auto simp: dep_rel_iff dest: assms)
  then show ?thesis by (simp add: dag_acyclic_def)
qed

lemma demo_dag_acyclic: "dag_acyclic demo_dag"
  by (rule dag_acyclic_by_rank [where rank = "\<lambda>t. if t = ''D'' then 2 else if t = ''C'' then 1 else 0"])
     (auto simp: demo_dag_def)

lemma two_step_dag_acyclic: "dag_acyclic two_step_dag"
  by (rule dag_acyclic_by_rank [where rank = "\<lambda>t. if t = ''B'' then 1 else 0"])
     (auto simp: two_step_dag_def)

lemma cyclic_dag_cyclic: "\<not> dag_acyclic cyclic_dag"
proof -
  have "(''A'', ''B'') \<in> dep_rel cyclic_dag" "(''B'', ''A'') \<in> dep_rel cyclic_dag"
    by (simp_all add: dep_rel_def cyclic_dag_def)
  then have "(''A'', ''A'') \<in> (dep_rel cyclic_dag)\<^sup>+" by (rule trancl_into_trancl [OF r_into_trancl])
  then show ?thesis by (auto simp: dag_acyclic_def acyclic_def)
qed

lemma self_loop_dag_cyclic: "\<not> dag_acyclic self_loop_dag"
proof -
  have "(''B'', ''B'') \<in> dep_rel self_loop_dag"
    by (simp add: dep_rel_def self_loop_dag_def)
  then have "(''B'', ''B'') \<in> (dep_rel self_loop_dag)\<^sup>+" by (rule r_into_trancl)
  then show ?thesis by (auto simp: dag_acyclic_def acyclic_def)
qed

lemmas run_simps = execute_dag_def execute_loop.simps ready_tasks_def keys_def start_batch_def
  gather_def together_def slow_A_def fails_everywhere_def
  new_orchestrator_def echo_task_def fails_on_A_def raises_cycle_error_def cycle_error_def

lemma demo_run:
  "execute_dag new_orchestrator demo_dag together echo_task =
     (Inr [(''A'', ''done A''), (''B'', ''done B''), (''C'', ''done C''), (''D'', ''done D'')],
      \<lparr>total_requests = 4, total_batches = 3\<rparr>,
      [Invoked ''A'', Invoked ''B'', Recorded ''A'', Recorded ''B'',
       Invoked ''C'', Recorded ''C'', Invoked ''D'', Recorded ''D''])"
  by (simp add: run_simps demo_dag_def)

theorem execute_dag_waves_witness:
  "distinct (map fst demo_dag) \<and> dag_closed demo_dag \<and> dag_acyclic demo_dag
   \<and> succeeds_on echo_task demo_dag
   \<and> execute_dag new_orchestrator demo_dag together echo_task =
       (Inr [(''A'', ''done A''), (''B'', ''done B''), (''C'', ''done C''), (''D'', ''done D'')],
        \<lparr>total_requests = 4, total_batches = 3\<rparr>,
        [Invoked ''A'', Invoked ''B'', Recorded ''A'', Recorded ''B'',
         Invoked ''C'', Recorded ''C'', Invoked ''D'', Recorded ''D''])
   \<and> longest_chain demo_dag 3
   \<and> deps_recorded_before demo_dag {}
        [Invoked ''A'', Invoked ''B'', Recorded ''A'', Recorded ''B'',
         Invoked ''C'', Recorded ''C'', Invoked ''D'', Recorded ''D'']"
proof -
  have d: "distinct (map fst demo_dag)" by (simp add: demo_dag_def)
  have c: "dag_closed demo_dag" by (simp add: dag_closed_def demo_dag_def keys_def)
  have s: "succeeds_on echo_task demo_dag" by (simp add: succeeds_on_def demo_dag_def echo_task_def)
  note a = demo_dag_acyclic
  from execute_dag_waves [OF d, of new_orchestrator together echo_task] c a s
  obtain n where tr: "deps_recorded_before demo_dag {} (snd (snd (execute_dag new_orchestrator demo_dag together echo_task)))"
    and n: "fst (snd (execute_dag new_orchestrator demo_dag together echo_task)) =
              \<lparr>total_requests = total_requests new_orchestrator + int (length demo_dag),
               total_batches = total_batches new_orchestrator + int n\<rparr>"
           "longest_chain demo_dag n"
    by blast
  from n(1) [unfolded demo_run] have "n = 3" by (simp add: new_orchestrator_def)
  with n(2) have "longest_chain demo_dag 3" by simp
  with tr d c a s show ?thesis by (simp add: demo_run)
qed

lemma two_step_depth: "longest_chain two_step_dag 2"
proof -
  have d: "distinct (map fst two_step_dag)" by (simp add: two_step_dag_def)
  have c: "dag_closed two_step_dag" by (simp add: dag_closed_def two_step_dag_def keys_def)
  have s: "succeeds_on echo_task two_step_dag"
    by (simp add: succeeds_on_def two_step_dag_def echo_task_def)
  from execute_dag_success [OF d c two_step_dag_acyclic s, of new_orchestrator together]
  obtain n where n: "fst (snd (execute_dag new_orchestrator two_step_dag together echo_task)) =
              \<lparr>total_requests = total_requests new_orchestrator + int (length two_step_dag),
               total_batches = total_batches new_orchestrator + int n\<rparr>"
           "longest_chain two_step_dag n"
    by blast
  have "fst (snd (execute_dag new_orchestrator two_step_dag together echo_task)) =
          \<lparr>total_requests = 2, total_batches = 2\<rparr>"
    by (simp add: run_simps two_step_dag_def)
  with n(1) have "n = 2" by (simp add: new_orchestrator_def)
  with n(2) show ?thesis by simp
qed

text \<open>
  C1 as stated fails for a callback that raises: on the acyclic DAG \<^verbatim>\<open>{A: [], B: [A]}\<close>,
  whose depth is two, a callback that raises on \<^verbatim>\<open>A\<close> ends the run in the first batch, so
  \<open>total_batches\<close> has grown by one.
\<close>

theorem failing_callback_cuts_waves:
  "distinct (map fst two_step_dag) \<and> dag_closed two_step_dag \<and> dag_acyclic two_step_dag
   \<and> longest_chain two_step_dag 2
   \<and> execute_dag new_orchestrator two_step_dag together fails_on_A =
       (Inl (PyExc ''ValueError'' ''boom''), \<lparr>total_requests = 0, total_batches = 1\<rparr>,
        [Invoked ''A''])"
proof -
  have "distinct (map fst two_step_dag)" by (simp add: two_step_dag_def)
  moreover have "dag_closed two_step_dag" by (simp add: dag_closed_def two_step_dag_def keys_def)
  moreover have "execute_dag new_orchestrator two_step_dag together fails_on_A =
       (Inl (PyExc ''ValueError'' ''boom''), \<lparr>total_requests = 0, total_batches = 1\<rparr>,
        [Invoked ''A''])"
    by (simp add: run_simps two_step_dag_def)
  ultimately show ?thesis using two_step_dag_acyclic two_step_depth by simp
qed

lemma cyclic_dag_not_runnable: "\<not> runnable cyclic_dag t"
proof
  assume "runnable cyclic_dag t"
  then show False
  proof (induction rule: runnable.induct)
    case (1 t deps)
    then show ?case by (auto simp: cyclic_dag_def split: if_splits)
  qed
qed

lemma self_loop_dag_runnable: "runnable self_loop_dag ''A''"
  by (rule runnable.intros [where deps = "[]"]) (simp_all add: self_loop_dag_def)

theorem execute_dag_structural_error_witness:
  "distinct (map fst cyclic_dag) \<and> \<not> dag_acyclic cyclic_dag
   \<and> execute_dag new_orchestrator cyclic_dag together echo_task =
       (Inl cycle_error, \<lparr>total_requests = 0, total_batches = 0\<rparr>, [])
   \<and> (\<forall>t. \<not> runnable cyclic_dag t)
   \<and> fails_on_A ''A'' = Inl (PyExc ''ValueError'' ''boom'')
   \<and> execute_dag new_orchestrator cyclic_dag together fails_on_A =
       (Inl cycle_error, \<lparr>total_requests = 0, total_batches = 0\<rparr>, [])
   \<and> distinct (map fst dangling_dag) \<and> \<not> dag_closed dangling_dag
   \<and> execute_dag new_orchestrator dangling_dag together echo_task =
       (Inl cycle_error, \<lparr>total_requests = 1, total_batches = 1\<rparr>, [Invoked ''A'', Recorded ''A''])
   \<and> distinct (map fst self_loop_dag) \<and> \<not> dag_acyclic self_loop_dag
   \<and> runnable self_loop_dag ''A''
   \<and> fst (execute_dag new_orchestrator self_loop_dag together fails_on_A) =
       Inl (PyExc ''ValueError'' ''boom'')
   \<and> distinct (map fst demo_dag) \<and> dag_closed demo_dag \<and> dag_acyclic demo_dag
   \<and> fst (execute_dag new_orchestrator demo_dag together echo_task) \<noteq> Inl cycle_error
   \<and> fst (execute_dag new_orchestrator two_roots_dag together fails_everywhere) =
       Inl (PyExc ''ValueError'' ''A'')
   \<and> fst (execute_dag new_orchestrator two_roots_dag slow_A fails_everywhere) =
       Inl (PyExc ''ValueError'' ''B'')"
proof -
  have d1: "distinct (map fst cyclic_dag)" by (simp add: cyclic_dag_def)
  have ok: "\<forall>t. runnable cyclic_dag t \<longrightarrow> (\<exists>r. echo_task t = Inr r)" by (simp add: echo_task_def)
  from execute_dag_structural_error [OF d1, of new_orchestrator together echo_task] cyclic_dag_cyclic ok
  have e1: "fst (execute_dag new_orchestrator cyclic_dag together echo_task) = Inl cycle_error" by auto
  have r1: "snd (execute_dag new_orchestrator cyclic_dag together echo_task) = (\<lparr>total_requests = 0, total_batches = 0\<rparr>, [])"
    by (simp add: run_simps cyclic_dag_def)
  from e1 r1 have x1: "execute_dag new_orchestrator cyclic_dag together echo_task =
       (Inl cycle_error, \<lparr>total_requests = 0, total_batches = 0\<rparr>, [])"
    by (metis prod.collapse)
  have nr: "\<forall>t. \<not> runnable cyclic_dag t" by (simp add: cyclic_dag_not_runnable)
  have fa: "fails_on_A ''A'' = Inl (PyExc ''ValueError'' ''boom'')" by (simp add: fails_on_A_def)
  from execute_dag_structural_error [OF d1, of new_orchestrator together fails_on_A] cyclic_dag_cyclic nr
  have e1': "fst (execute_dag new_orchestrator cyclic_dag together fails_on_A) = Inl cycle_error" by auto
  have r1': "snd (execute_dag new_orchestrator cyclic_dag together fails_on_A) = (\<lparr>total_requests = 0, total_batches = 0\<rparr>, [])"
    by (simp add: run_simps cyclic_dag_def)
  from e1' r1' have x1': "execute_dag new_orchestrator cyclic_dag together fails_on_A =
       (Inl cycle_error, \<lparr>total_requests = 0, total_batches = 0\<rparr>, [])"
    by (metis prod.collapse)
  have d2: "distinct (map fst dangling_dag)" by (simp add: dangling_dag_def)
  have c2: "\<not> dag_closed dangling_dag" by (simp add: dag_closed_def dangling_dag_def keys_def)
  have x2: "execute_dag new_orchestrator dangling_dag together echo_task =
       (Inl cycle_error, \<lparr>total_requests = 1, total_batches = 1\<rparr>, [Invoked ''A'', Recorded ''A''])"
    by (simp add: run_simps dangling_dag_def)
  have d4: "distinct (map fst self_loop_dag)" by (simp add: self_loop_dag_def)
  have x4: "fst (execute_dag new_orchestrator self_loop_dag together fails_on_A) =
       Inl (PyExc ''ValueError'' ''boom'')"
    by (simp add: run_simps self_loop_dag_def)
  have d3: "distinct (map fst demo_dag)" by (simp add: demo_dag_def)
  have c3: "dag_closed demo_dag" by (simp add: dag_closed_def demo_dag_def keys_def)
  have x3: "fst (execute_dag new_orchestrator demo_dag together echo_task) \<noteq> Inl cycle_error"
    by (simp add: demo_run)
  have x5: "fst (execute_dag new_orchestrator two_roots_dag together fails_everywhere) =
       Inl (PyExc ''ValueError'' ''A'')"
    by (simp add: run_simps two_roots_dag_def)
  have x6: "fst (execute_dag new_orchestrator two_roots_dag slow_A fails_everywhere) =
       Inl (PyExc ''ValueError'' ''B'')"
    by (simp add: run_simps two_roots_dag_def)
  from d1 cyclic_dag_cyclic x1 nr fa x1' d2 c2 x2 d4 self_loop_dag_cyclic self_loop_dag_runnable x4
    d3 c3 demo_dag_acyclic x3 x5 x6
  show ?thesis by simp
qed

text \<open>
  C2 as stated fails twice. On \<^verbatim>\<open>{A: [], B: [B]}\<close>, which has a cycle, a callback that
  raises \<^verbatim>\<open>ValueError\<close> on \<^verbatim>\<open>A\<close> ends the run with that error, not with the structural
  one. And the structural error is a plain \<^verbatim>\<open>RuntimeError\<close>: a callback that raises the
  same one on the acyclic DAG \<^verbatim>\<open>{A: [], B: [A]}\<close> makes \<open>execute_dag\<close> end exactly as it
  does on a cycle.
\<close>

theorem callback_failure_masks_cycle:
  "distinct (map fst self_loop_dag) \<and> \<not> dag_acyclic self_loop_dag
   \<and> execute_dag new_orchestrator self_loop_dag together fails_on_A =
       (Inl (PyExc ''ValueError'' ''boom''), \<lparr>total_requests = 0, total_batches = 1\<rparr>,
        [Invoked ''A''])
   \<and> PyExc ''ValueError'' ''boom'' \<noteq> cycle_error
   \<and> distinct (map fst two_step_dag) \<and> dag_closed two_step_dag \<and> dag_acyclic two_step_dag
   \<and> fst (execute_dag new_orchestrator two_step_dag together raises_cycle_error) = Inl cycle_error"
proof -
  have "distinct (map fst self_loop_dag)" by (simp add: self_loop_dag_def)
  moreover have "execute_dag new_orchestrator self_loop_dag together fails_on_A =
       (Inl (PyExc ''ValueError'' ''boom''), \<lparr>total_requests = 0, total_batches = 1\<rparr>,
        [Invoked ''A''])"
    by (simp add: run_simps self_loop_dag_def)
  moreover have "PyExc ''ValueError'' ''boom'' \<noteq> cycle_error" by (simp add: cycle_error_def)
  moreover have "distinct (map fst two_step_dag)" by (simp add: two_step_dag_def)
  moreover have "dag_closed two_step_dag" by (simp add: dag_closed_def two_step_dag_def keys_def)
  moreover have "fst (execute_dag new_orchestrator two_step_dag together raises_cycle_error) = Inl cycle_error"
    by (simp add: run_simps two_step_dag_def)
  ultimately show ?thesis using self_loop_dag_cyclic two_step_dag_acyclic by simp
qed

end
